theory Spec2Isabelle
  imports Complex_Main "HOL-Library.Sublist" "HOL-Library.Log_Nat"
begin

unbundle bit_operations_syntax

section \<open>JavaScript values\<close>

text \<open>
  The server of \<^verbatim>\<open>server.js\<close> handles values produced by \<^verbatim>\<open>JSON.parse\<close>. A number is
  either an integer that a double holds exactly and prints in plain decimal
  (\<open>SafeInt n\<close>, used for \<open>\<bar>n\<bar> \<le> 2^53\<close>; the two zeros of a double are both \<open>SafeInt 0\<close>),
  or any other number, which is given by the text that JavaScript prints for it
  (\<open>NumText\<close>: \<open>NumText ''1.5''\<close>, \<open>NumText ''1e+21''\<close>, \<open>NumText ''NaN''\<close>).
  An object is the list of its own properties, each key once, in insertion order.
\<close>

datatype jsnum = SafeInt int | NumText string

datatype jsval =
    JUndefined
  | JNull
  | JBool bool
  | JNum jsnum
  | JStr string
  | JArr "jsval list"
  | JObj "(string \<times> jsval) list"

datatype js_error = SyntaxError | TypeError | RangeError

text \<open>
  A frame received on a socket: the text of a JSON value, given by the value that
  \<^verbatim>\<open>JSON.parse\<close> returns for it, or a text that is not JSON, for which \<^verbatim>\<open>JSON.parse\<close>
  throws a \<^verbatim>\<open>SyntaxError\<close>.
\<close>

datatype frame = Json jsval | NotJson string

fun JSON_parse :: "frame \<Rightarrow> js_error + jsval" where
  "JSON_parse (Json v) = Inr v"
| "JSON_parse (NotJson t) = Inl SyntaxError"

text \<open>
  Reading a property \<^verbatim>\<open>data.k\<close>. On \<^verbatim>\<open>null\<close> and \<^verbatim>\<open>undefined\<close> it throws a \<^verbatim>\<open>TypeError\<close>; on
  an object it is the own property, or \<^verbatim>\<open>undefined\<close>; on a number, a string, a boolean
  or an array it is \<^verbatim>\<open>undefined\<close> for each of the names the server reads (\<^verbatim>\<open>type\<close>,
  \<^verbatim>\<open>face\<close>, \<^verbatim>\<open>layer\<close>, \<^verbatim>\<open>block\<close>, \<^verbatim>\<open>position\<close>, \<^verbatim>\<open>forward\<close>, \<^verbatim>\<open>pitch\<close>), none of which is a
  property of a prototype.
\<close>

fun get_prop :: "jsval \<Rightarrow> string \<Rightarrow> js_error + jsval" where
  "get_prop JUndefined k = Inl TypeError"
| "get_prop JNull k = Inl TypeError"
| "get_prop (JObj kvs) k = Inr (case map_of kvs k of Some v \<Rightarrow> v | None \<Rightarrow> JUndefined)"
| "get_prop v k = Inr JUndefined"

text \<open>The operands that \<^verbatim>\<open>x || 0\<close> replaces by \<^verbatim>\<open>0\<close>.\<close>

fun falsy :: "jsval \<Rightarrow> bool" where
  "falsy JUndefined = True"
| "falsy JNull = True"
| "falsy (JBool b) = (\<not> b)"
| "falsy (JNum (SafeInt n)) = (n = 0)"
| "falsy (JNum (NumText t)) = (t = ''NaN'')"
| "falsy (JStr t) = (t = [])"
| "falsy (JArr xs) = False"
| "falsy (JObj kvs) = False"

definition or_zero :: "jsval \<Rightarrow> jsval" where
  "or_zero x = (if falsy x then JNum (SafeInt 0) else x)"

text \<open>
  How deeply a value is nested in arrays and objects. \<^verbatim>\<open>JSON.stringify\<close> and
  \<^verbatim>\<open>Array.prototype.join\<close> recurse once for each level, and the engine throws a
  \<^verbatim>\<open>RangeError\<close> (maximum call stack size exceeded) where the recursion needs more stack
  than there is. How many levels fit depends on the engine and its stack, not on
  \<^verbatim>\<open>server.js\<close>: the two limits are fields of the server state, set when it starts.
  \<^verbatim>\<open>JSON.parse\<close> has no such limit.
\<close>

fun depth :: "jsval \<Rightarrow> nat"
  and depth_list :: "jsval list \<Rightarrow> nat"
  and depth_props :: "(string \<times> jsval) list \<Rightarrow> nat" where
  "depth (JArr xs) = Suc (depth_list xs)"
| "depth (JObj kvs) = Suc (depth_props kvs)"
| "depth JUndefined = 0"
| "depth JNull = 0"
| "depth (JBool b) = 0"
| "depth (JNum n) = 0"
| "depth (JStr t) = 0"
| "depth_list [] = 0"
| "depth_list (x # xs) = max (depth x) (depth_list xs)"
| "depth_props [] = 0"
| "depth_props ((k, v) # kvs) = max (depth v) (depth_props kvs)"

subsection \<open>Numbers as text\<close>

definition digit_char :: "nat \<Rightarrow> char" where
  "digit_char d = ''0123456789abcdef'' ! d"

function digits_of_nat :: "nat \<Rightarrow> string" where
  "digits_of_nat n = (if n < 10 then [digit_char n] else digits_of_nat (n div 10) @ [digit_char (n mod 10)])"
  by pat_completeness auto
termination
  by (relation "measure (\<lambda>n. n)") auto

declare digits_of_nat.simps [simp del]

text \<open>\<^verbatim>\<open>Number::toString\<close>: plain decimal for a safe integer, the number's own text otherwise.\<close>

fun Number_toString :: "jsnum \<Rightarrow> string" where
  "Number_toString (SafeInt n) =
     (if n < 0 then CHR ''-'' # digits_of_nat (nat (- n)) else digits_of_nat (nat n))"
| "Number_toString (NumText t) = t"

text \<open>
  \<^verbatim>\<open>ToString\<close>, as the template literal applies it. An array is joined with commas, a
  \<^verbatim>\<open>null\<close> or \<^verbatim>\<open>undefined\<close> element giving the empty text; the join of an array inside an
  array is one level of recursion more, and \<open>lvl\<close> is the number of levels for which the
  stack has room: beyond it the conversion throws a \<^verbatim>\<open>RangeError\<close>. The elements are
  converted from left to right, so the first exception is the one thrown. A parsed
  object prints as \<^verbatim>\<open>[object Object]\<close>, unless it has an own property \<^verbatim>\<open>toString\<close>: that one
  is no function, and the conversion throws a \<^verbatim>\<open>TypeError\<close>.
\<close>

fun ToString :: "nat \<Rightarrow> jsval \<Rightarrow> js_error + string"
  and join_comma :: "nat \<Rightarrow> jsval list \<Rightarrow> js_error + string" where
  "ToString lvl JUndefined = Inr ''undefined''"
| "ToString lvl JNull = Inr ''null''"
| "ToString lvl (JBool b) = Inr (if b then ''true'' else ''false'')"
| "ToString lvl (JNum n) = Inr (Number_toString n)"
| "ToString lvl (JStr t) = Inr t"
| "ToString lvl (JArr xs) = (case lvl of 0 \<Rightarrow> Inl RangeError | Suc k \<Rightarrow> join_comma k xs)"
| "ToString lvl (JObj kvs) =
     (if ''toString'' \<in> set (map fst kvs) then Inl TypeError else Inr ''[object Object]'')"
| "join_comma lvl [] = Inr []"
| "join_comma lvl (x # xs) =
     (case (if x = JNull \<or> x = JUndefined then Inr [] else ToString lvl x) of
        Inl e \<Rightarrow> Inl e
      | Inr t \<Rightarrow>
          (if xs = [] then Inr t
           else (case join_comma lvl xs of Inl e \<Rightarrow> Inl e | Inr u \<Rightarrow> Inr (t @ CHR '','' # u))))"

text \<open>\<^verbatim>\<open>key.split('_')\<close>: the pieces between the separators, at least one piece.\<close>

fun split :: "char \<Rightarrow> string \<Rightarrow> string list" where
  "split sep [] = [[]]"
| "split sep (c # cs) =
     (if c = sep then [] # split sep cs
      else (case split sep cs of [] \<Rightarrow> [[c]] | p # ps \<Rightarrow> (c # p) # ps))"

text \<open>
  What \<^verbatim>\<open>Number(text)\<close> and the destructuring \<^verbatim>\<open>[face, layer]\<close> give. The value is
  computed for the empty text (zero) and for an optional sign followed by decimal digits
  that denote an integer of magnitude at most \<open>2^53\<close>, which a double holds exactly. For any
  other text (a fraction, an exponent, a radix prefix, surrounding blanks, an infinity,
  a text that is no number) the number is left as \<open>NumberOf\<close> the text, its value not
  computed. \<open>Undefined\<close> is a missing array element.
\<close>

datatype coord = Num int | NumberOf string | Undefined

definition is_digit :: "char \<Rightarrow> bool" where
  "is_digit c = (c \<in> set ''0123456789'')"

definition digit_val :: "char \<Rightarrow> nat" where
  "digit_val c = of_char c - 48"

definition nat_of_digits :: "string \<Rightarrow> nat" where
  "nat_of_digits cs = foldl (\<lambda>a c. 10 * a + digit_val c) 0 cs"

definition Number :: "string \<Rightarrow> coord" where
  "Number t =
     (if t = [] then Num 0
      else if (hd t = CHR ''-'' \<or> hd t = CHR ''+'') \<and> tl t \<noteq> [] \<and> list_all is_digit (tl t)
              \<and> nat_of_digits (tl t) \<le> 2 ^ 53
        then Num (if hd t = CHR ''-'' then - int (nat_of_digits (tl t)) else int (nat_of_digits (tl t)))
      else if list_all is_digit t \<and> nat_of_digits t \<le> 2 ^ 53 then Num (int (nat_of_digits t))
      else NumberOf t)"

section \<open>Doubles\<close>

text \<open>
  A double is modelled by the real number it denotes. \<open>fl\<close> rounds a real to the nearest
  double, ties to the even significand, with 53 bits of significand and the gradual
  underflow below \<open>2^-1022\<close>; it is the rounding of every arithmetic operation and of every
  literal of the source. Overflow to an infinity (from \<open>2^1024\<close>) is not modelled: the
  operands of \<^verbatim>\<open>generateColor\<close> lie below 1.
\<close>

definition rne :: "real \<Rightarrow> int" where
  "rne q = (let f = \<lfloor>q\<rfloor> in
     if q - of_int f < 1 / 2 then f
     else if 1 / 2 < q - of_int f then f + 1
     else if even f then f else f + 1)"

text \<open>The binary exponent of a positive real \<open>x\<close>: \<open>2^binade x \<le> x < 2^(binade x + 1)\<close>.\<close>

definition binade :: "real \<Rightarrow> int" where
  "binade x =
     (if 1 \<le> x then int (floorlog 2 (nat \<lfloor>x\<rfloor>)) - 1
      else - int (floorlog 2 (nat (\<lceil>1 / x\<rceil> - 1))))"

definition ulp_exponent :: "real \<Rightarrow> int" where
  "ulp_exponent x = max (binade \<bar>x\<bar>) (- 1022) - 52"

definition fl :: "real \<Rightarrow> real" where
  "fl x = (if x = 0 then 0
     else of_int (rne (x / 2 powi ulp_exponent x)) * 2 powi ulp_exponent x)"

definition is_double :: "real \<Rightarrow> bool" where
  "is_double x = (fl x = x)"

definition d_mul :: "real \<Rightarrow> real \<Rightarrow> real" where
  "d_mul x y = fl (x * y)"

definition d_add :: "real \<Rightarrow> real \<Rightarrow> real" where
  "d_add x y = fl (x + y)"

section \<open>Identity generator\<close>

text \<open>
  \<^verbatim>\<open>Math.random()\<close> is an input: \<open>rnd i\<close> is the value of the \<open>i\<close>-th call made while one
  connection is set up, a double with \<open>0 \<le> rnd i < 1\<close>.
\<close>

text \<open>
  \<^verbatim>\<open>generateUUID\<close>: each \<^verbatim>\<open>x\<close> or \<^verbatim>\<open>y\<close> of the template is replaced, left to right, by one
  hexadecimal digit. \<open>replacement c u\<close> is the callback of \<^verbatim>\<open>replace\<close> for the matched
  character \<open>c\<close>, when its call of \<^verbatim>\<open>Math.random\<close> returns \<open>u\<close>;
  \<^verbatim>\<open>r = Math.random() * 16 | 0\<close> is the integer part of the product.
\<close>

definition replacement :: "char \<Rightarrow> real \<Rightarrow> char" where
  "replacement c u =
     (let r = nat \<lfloor>u * 16\<rfloor>;
          v = (if c = CHR ''x'' then r else (r AND 3) OR 8)
      in digit_char v)"

fun replace_xy :: "string \<Rightarrow> (nat \<Rightarrow> real) \<Rightarrow> nat \<Rightarrow> string" where
  "replace_xy [] rnd i = []"
| "replace_xy (c # cs) rnd i =
     (if c = CHR ''x'' \<or> c = CHR ''y'' then replacement c (rnd i) # replace_xy cs rnd (Suc i)
      else c # replace_xy cs rnd i)"

definition generateUUID :: "(nat \<Rightarrow> real) \<Rightarrow> string" where
  "generateUUID rnd = replace_xy ''xxxxxxxx-xxxx-4xxx-yxxx-xxxxxxxxxxxx'' rnd 0"

text \<open>The colour object \<^verbatim>\<open>{r, g, b}\<close>; its fields are written \<open>col_r\<close>, \<open>col_g\<close>, \<open>col_b\<close>.\<close>

record color =
  col_r :: real
  col_g :: real
  col_b :: real

text \<open>\<^verbatim>\<open>Math.random() * 0.7 + 0.3\<close>, in double arithmetic.\<close>

definition channel :: "real \<Rightarrow> real" where
  "channel u = d_add (d_mul u (fl (7 / 10))) (fl (3 / 10))"

definition generateColor :: "(nat \<Rightarrow> real) \<Rightarrow> color" where
  "generateColor rnd = \<lparr>col_r = channel (rnd 0), col_g = channel (rnd 1), col_b = channel (rnd 2)\<rparr>"

section \<open>Server state\<close>

type_synonym ws = nat

text \<open>The object \<^verbatim>\<open>playerData\<close>; its field \<^verbatim>\<open>id\<close> is written \<open>player_id\<close>.\<close>

record playerData =
  player_id :: string
  color :: color
  position :: jsval
  forward :: jsval
  pitch :: jsval

record change =
  face :: coord
  layer :: coord
  block :: jsval

text \<open>The messages the server sends, as the objects handed to \<^verbatim>\<open>JSON.stringify\<close>.\<close>

datatype message =
    Init string color
  | PlayerJoin string color jsval jsval jsval
  | WorldState "change list"
  | BlockChange jsval jsval jsval
  | PlayerMove string jsval jsval jsval
  | PlayerLeave string

text \<open>
  \<^verbatim>\<open>JSON.stringify(message)\<close>. The text it returns is represented by the message itself.
  \<open>payload\<close> lists the values that a message takes over from a client, which are results
  of \<^verbatim>\<open>JSON.parse\<close>; everything else in a message is a string or a number made by the
  server, or one of the two default arrays. The call throws a \<^verbatim>\<open>RangeError\<close> when one of
  these values is nested more deeply than \<open>lvl\<close> levels; the levels of the message object
  around them are the same for every message and are not counted. No other exception of
  \<^verbatim>\<open>JSON.stringify\<close> can occur: a parsed value has no cycle, no \<^verbatim>\<open>BigInt\<close> and no function.
  Memory and the length of a string are unbounded here.
\<close>

fun payload :: "message \<Rightarrow> jsval list" where
  "payload (Init playerId playerColor) = []"
| "payload (PlayerJoin playerId playerColor p f t) = [p, f, t]"
| "payload (WorldState changes) = map block changes"
| "payload (BlockChange fa la bl) = [fa, la, bl]"
| "payload (PlayerMove playerId p f t) = [p, f, t]"
| "payload (PlayerLeave playerId) = []"

definition serializes :: "nat \<Rightarrow> message \<Rightarrow> bool" where
  "serializes lvl msg = list_all (\<lambda>v. depth v \<le> lvl) (payload msg)"

definition JSON_stringify :: "nat \<Rightarrow> message \<Rightarrow> js_error + message" where
  "JSON_stringify lvl msg = (if serializes lvl msg then Inr msg else Inl RangeError)"

datatype log_line =
    PlayerConnected string
  | PlayerDisconnected string
  | ErrorParsingMessage js_error
  | WebSocketError string string
  | UncaughtException js_error

text \<open>
  \<open>clients\<close> is \<^verbatim>\<open>wss.clients\<close> and \<open>readyState\<close> the sockets' state (1 is \<^verbatim>\<open>OPEN\<close>), both kept
  by the transport. \<open>players\<close> and \<open>worldChanges\<close> are the two \<^verbatim>\<open>Map\<close>s of the source, as
  lists of entries in insertion order. \<open>handlers\<close> holds, for each socket on which
  \<^verbatim>\<open>ws.on\<close> installed the three listeners, the \<^verbatim>\<open>playerId\<close> their closure captured.
  \<open>sent\<close> lists every call of \<^verbatim>\<open>send\<close> in order, \<open>console\<close> every logged line.
  \<open>accepted\<close> counts the sockets created so far; a new socket takes that number as
  its handle. \<open>stringify_limit\<close> and \<open>join_limit\<close> are the numbers of levels for which
  \<^verbatim>\<open>JSON.stringify\<close> and \<^verbatim>\<open>Array.prototype.join\<close> have stack. \<open>ended\<close> holds once an exception
  has left a listener uncaught: \<^verbatim>\<open>server.js\<close> installs no handler for it, so the process
  ends, and the state is kept as it was at that moment.
\<close>

record server =
  clients :: "ws list"
  readyState :: "ws \<Rightarrow> nat"
  handlers :: "ws \<Rightarrow> string option"
  players :: "(ws \<times> playerData) list"
  worldChanges :: "(string \<times> jsval) list"
  sent :: "(ws \<times> message) list"
  console :: "log_line list"
  accepted :: nat
  stringify_limit :: nat
  join_limit :: nat
  ended :: bool

text \<open>The server when it starts, on an engine with the limits \<open>sl\<close> and \<open>jl\<close>.\<close>

definition init :: "nat \<Rightarrow> nat \<Rightarrow> server" where
  "init sl jl = \<lparr>clients = [], readyState = (\<lambda>c. 0), handlers = (\<lambda>c. None), players = [],
     worldChanges = [], sent = [], console = [], accepted = 0,
     stringify_limit = sl, join_limit = jl, ended = False\<rparr>"

subsection \<open>The operations of a JavaScript Map\<close>

fun Map_set :: "('k \<times> 'v) list \<Rightarrow> 'k \<Rightarrow> 'v \<Rightarrow> ('k \<times> 'v) list" where
  "Map_set [] k v = [(k, v)]"
| "Map_set (e # m) k v = (if fst e = k then (k, v) # m else e # Map_set m k v)"

definition Map_get :: "('k \<times> 'v) list \<Rightarrow> 'k \<Rightarrow> 'v option" where
  "Map_get m k = map_of m k"

definition Map_delete :: "('k \<times> 'v) list \<Rightarrow> 'k \<Rightarrow> ('k \<times> 'v) list" where
  "Map_delete m k = filter (\<lambda>e. fst e \<noteq> k) m"

subsection \<open>Broadcast\<close>

definition ws_send :: "ws \<Rightarrow> message \<Rightarrow> server \<Rightarrow> server" where
  "ws_send client msg s = s\<lparr>sent := sent s @ [(client, msg)]\<rparr>"

definition console_log :: "log_line \<Rightarrow> server \<Rightarrow> server" where
  "console_log l s = s\<lparr>console := console s @ [l]\<rparr>"

text \<open>
  \<^verbatim>\<open>broadcast(message, excludeId = null)\<close>; \<open>None\<close> is the default \<^verbatim>\<open>null\<close>. The message is
  serialized first: when that throws, nothing has been sent. \<open>recipient\<close> is the test
  under which the loop sends to a client: the socket is \<^verbatim>\<open>OPEN\<close>, it has an entry in
  \<open>players\<close>, and the \<^verbatim>\<open>id\<close> of that entry is not \<^verbatim>\<open>excludeId\<close>.
\<close>

definition recipient :: "server \<Rightarrow> string option \<Rightarrow> ws \<Rightarrow> bool" where
  "recipient s excludeId client =
     (readyState s client = 1 \<and>
      (case Map_get (players s) client of
         None \<Rightarrow> False
       | Some playerData \<Rightarrow> Some (player_id playerData) \<noteq> excludeId))"

definition broadcast_to :: "message \<Rightarrow> string option \<Rightarrow> ws \<Rightarrow> server \<Rightarrow> server" where
  "broadcast_to msg excludeId client s =
     (if readyState s client = 1 then
        (case Map_get (players s) client of
           None \<Rightarrow> s
         | Some playerData \<Rightarrow>
             if Some (player_id playerData) \<noteq> excludeId then ws_send client msg s else s)
      else s)"

definition broadcast :: "message \<Rightarrow> string option \<Rightarrow> server \<Rightarrow> js_error + server" where
  "broadcast msg excludeId s =
     (case JSON_stringify (stringify_limit s) msg of
        Inl e \<Rightarrow> Inl e
      | Inr messageStr \<Rightarrow> Inr (fold (broadcast_to messageStr excludeId) (clients s) s))"

text \<open>The state after a broadcast that does not throw, in closed form.\<close>

definition fanout :: "message \<Rightarrow> string option \<Rightarrow> server \<Rightarrow> server" where
  "fanout msg excludeId s =
     s\<lparr>sent := sent s @ map (\<lambda>c. (c, msg)) (filter (recipient s excludeId) (clients s))\<rparr>"

text \<open>\<^verbatim>\<open>ws.send(JSON.stringify(message))\<close>.\<close>

definition send_json :: "ws \<Rightarrow> message \<Rightarrow> server \<Rightarrow> js_error + server" where
  "send_json ws msg s =
     (case JSON_stringify (stringify_limit s) msg of
        Inl e \<Rightarrow> Inl e
      | Inr messageStr \<Rightarrow> Inr (ws_send ws messageStr s))"

section \<open>Session protocol handler\<close>

text \<open>One entry of the \<^verbatim>\<open>worldState\<close> replay: \<^verbatim>\<open>const [face, layer] = key.split('_').map(Number)\<close>.\<close>

definition change_of :: "string \<times> jsval \<Rightarrow> change" where
  "change_of e =
     (case map Number (split (CHR ''_'') (fst e)) of
        [] \<Rightarrow> \<lparr>face = Undefined, layer = Undefined, block = snd e\<rparr>
      | [f] \<Rightarrow> \<lparr>face = f, layer = Undefined, block = snd e\<rparr>
      | f # l # rest \<Rightarrow> \<lparr>face = f, layer = l, block = snd e\<rparr>)"

definition snapshotAll :: "(string \<times> jsval) list \<Rightarrow> change list" where
  "snapshotAll wc = map change_of wc"

text \<open>
  The listener of \<^verbatim>\<open>wss.on('connection')\<close>, for the new socket \<open>ws\<close>. \<^verbatim>\<open>generateUUID\<close> makes the
  first 31 calls of \<^verbatim>\<open>Math.random\<close>, \<^verbatim>\<open>generateColor\<close> the next three. The listener has no
  \<^verbatim>\<open>try\<close>: its result is the state it has reached, and the exception that left it, if
  one was thrown; what it did before the throw stays done, what comes after is skipped.
  \<open>existing_player\<close> is the notice built in the loop over \<open>players\<close>, and \<open>send_existing\<close> is
  that loop.
\<close>

definition existing_player :: "ws \<times> playerData \<Rightarrow> message" where
  "existing_player e =
     PlayerJoin (player_id (snd e)) (color (snd e)) (position (snd e)) (forward (snd e))
       (or_zero (pitch (snd e)))"

fun send_existing :: "ws \<Rightarrow> (ws \<times> playerData) list \<Rightarrow> server \<Rightarrow> server \<times> js_error option" where
  "send_existing ws [] s = (s, None)"
| "send_existing ws (e # es) s =
     (if fst e \<noteq> ws then
        (case send_json ws (existing_player e) s of
           Inl err \<Rightarrow> (s, Some err)
         | Inr s' \<Rightarrow> send_existing ws es s')
      else send_existing ws es s)"

definition new_playerData :: "(nat \<Rightarrow> real) \<Rightarrow> playerData" where
  "new_playerData rnd =
     (let playerId = generateUUID rnd;
          playerColor = generateColor (\<lambda>i. rnd (31 + i))
      in \<lparr>player_id = playerId, color = playerColor,
          position = JArr [JNum (SafeInt 0), JNum (SafeInt 102), JNum (SafeInt 0)],
          forward = JArr [JNum (SafeInt 0), JNum (SafeInt 0), JNum (SafeInt (- 1))],
          pitch = JNum (SafeInt 0)\<rparr>)"

definition on_connection :: "ws \<Rightarrow> (nat \<Rightarrow> real) \<Rightarrow> server \<Rightarrow> server \<times> js_error option" where
  "on_connection ws rnd s =
     (let playerData = new_playerData rnd;
          playerId = player_id playerData;
          playerColor = color playerData;
          s1 = s\<lparr>players := Map_set (players s) ws playerData\<rparr>;
          s2 = console_log (PlayerConnected playerId) s1
      in case send_json ws (Init playerId playerColor) s2 of
           Inl e \<Rightarrow> (s2, Some e)
         | Inr s3 \<Rightarrow>
        (case send_existing ws (players s3) s3 of
           (s4, Some e) \<Rightarrow> (s4, Some e)
         | (s4, None) \<Rightarrow>
        (case (if 0 < length (worldChanges s4)
               then send_json ws (WorldState (snapshotAll (worldChanges s4))) s4
               else Inr s4) of
           Inl e \<Rightarrow> (s4, Some e)
         | Inr s5 \<Rightarrow>
        (case broadcast (PlayerJoin playerId playerColor (position playerData)
                 (forward playerData) (pitch playerData)) (Some playerId) s5 of
           Inl e \<Rightarrow> (s5, Some e)
         | Inr s6 \<Rightarrow> (s6\<lparr>handlers := (handlers s6)(ws := Some playerId)\<rparr>, None)))))"

text \<open>
  The listener of \<^verbatim>\<open>ws.on('message')\<close>. \<open>message_body\<close> is the \<^verbatim>\<open>try\<close> block: its result is the
  state it has reached, and the exception it threw, if any. Reading the message and
  building the key come before every effect; the store is written, and the record
  updated, before \<^verbatim>\<open>broadcast\<close> is called, so they stay when \<^verbatim>\<open>broadcast\<close> throws.
  \<open>block_key\<close> is the template literal \<^verbatim>\<open>${data.face}_${data.layer}\<close>, applied to the two
  properties read. The object \<^verbatim>\<open>playerData\<close> that the closure updates is the one stored in
  \<open>players\<close> under \<open>ws\<close>, as long as it is stored. \<open>on_message\<close> adds the \<^verbatim>\<open>catch\<close>, which logs.
\<close>

definition set_motion :: "ws \<Rightarrow> jsval \<Rightarrow> jsval \<Rightarrow> jsval \<Rightarrow> server \<Rightarrow> server" where
  "set_motion ws p f t s =
     s\<lparr>players := map (\<lambda>e. if fst e = ws
                             then (fst e, (snd e)\<lparr>position := p, forward := f, pitch := t\<rparr>)
                             else e) (players s)\<rparr>"

definition block_key :: "nat \<Rightarrow> jsval \<Rightarrow> jsval \<Rightarrow> js_error + string" where
  "block_key lvl fa la =
     (case ToString lvl fa of Inl e \<Rightarrow> Inl e | Inr ft \<Rightarrow>
      (case ToString lvl la of Inl e \<Rightarrow> Inl e | Inr lt \<Rightarrow> Inr (ft @ ''_'' @ lt)))"

definition message_body :: "ws \<Rightarrow> string \<Rightarrow> frame \<Rightarrow> server \<Rightarrow> server \<times> js_error option" where
  "message_body ws playerId msg s =
     (case JSON_parse msg of Inl e \<Rightarrow> (s, Some e) | Inr data \<Rightarrow>
      (case get_prop data ''type'' of Inl e \<Rightarrow> (s, Some e) | Inr ty \<Rightarrow>
         if ty = JStr ''blockChange'' then
           (case get_prop data ''face'' of Inl e \<Rightarrow> (s, Some e) | Inr fa \<Rightarrow>
            (case get_prop data ''layer'' of Inl e \<Rightarrow> (s, Some e) | Inr la \<Rightarrow>
             (case block_key (join_limit s) fa la of Inl e \<Rightarrow> (s, Some e) | Inr key \<Rightarrow>
              (case get_prop data ''block'' of Inl e \<Rightarrow> (s, Some e) | Inr bl \<Rightarrow>
                 (let s1 = s\<lparr>worldChanges := Map_set (worldChanges s) key bl\<rparr>
                  in case broadcast (BlockChange fa la bl) (Some playerId) s1 of
                       Inl e \<Rightarrow> (s1, Some e)
                     | Inr s2 \<Rightarrow> (s2, None))))))
         else if ty = JStr ''position'' then
           (case get_prop data ''position'' of Inl e \<Rightarrow> (s, Some e) | Inr p \<Rightarrow>
            (case get_prop data ''forward'' of Inl e \<Rightarrow> (s, Some e) | Inr f \<Rightarrow>
             (case get_prop data ''pitch'' of Inl e \<Rightarrow> (s, Some e) | Inr t \<Rightarrow>
                (let s1 = set_motion ws p f (or_zero t) s
                 in case broadcast (PlayerMove playerId p f (or_zero t)) (Some playerId) s1 of
                      Inl e \<Rightarrow> (s1, Some e)
                    | Inr s2 \<Rightarrow> (s2, None)))))
         else (s, None)))"

definition on_message :: "ws \<Rightarrow> string \<Rightarrow> frame \<Rightarrow> server \<Rightarrow> server" where
  "on_message ws playerId msg s =
     (case message_body ws playerId msg s of
        (s', None) \<Rightarrow> s'
      | (s', Some e) \<Rightarrow> console_log (ErrorParsingMessage e) s')"

text \<open>
  What a broadcast does as the last statement of the \<^verbatim>\<open>try\<close> block: it sends, or it throws
  and the \<^verbatim>\<open>catch\<close> logs.
\<close>

definition notify :: "message \<Rightarrow> string option \<Rightarrow> server \<Rightarrow> server" where
  "notify msg excludeId s =
     (if serializes (stringify_limit s) msg then fanout msg excludeId s
      else console_log (ErrorParsingMessage RangeError) s)"

text \<open>
  The listeners of \<^verbatim>\<open>ws.on('close')\<close> and \<^verbatim>\<open>ws.on('error')\<close>. The close listener has no \<^verbatim>\<open>try\<close>
  either.
\<close>

definition on_close :: "ws \<Rightarrow> string \<Rightarrow> server \<Rightarrow> server \<times> js_error option" where
  "on_close ws playerId s =
     (let s1 = console_log (PlayerDisconnected playerId) s;
          s2 = s1\<lparr>players := Map_delete (players s1) ws\<rparr>
      in case broadcast (PlayerLeave playerId) None s2 of
           Inl e \<Rightarrow> (s2, Some e)
         | Inr s3 \<Rightarrow> (s3, None))"

definition on_error :: "ws \<Rightarrow> string \<Rightarrow> string \<Rightarrow> server \<Rightarrow> server" where
  "on_error ws playerId err s = console_log (WebSocketError playerId err) s"

section \<open>Transport events\<close>

text \<open>
  What the \<^verbatim>\<open>ws\<close> transport does around the listeners. It creates a socket, sets it
  \<^verbatim>\<open>OPEN\<close> and adds it to \<^verbatim>\<open>wss.clients\<close> before it emits \<^verbatim>\<open>connection\<close>. It emits \<^verbatim>\<open>message\<close>,
  \<^verbatim>\<open>error\<close> and \<^verbatim>\<open>close\<close> only for a socket it holds; before \<^verbatim>\<open>close\<close> reaches the listener
  of the server, it has set the socket \<^verbatim>\<open>CLOSED\<close> (3) and removed it from \<^verbatim>\<open>wss.clients\<close>, so
  a socket closes once. \<open>Closing\<close> is the start of a closing handshake: the socket is
  \<^verbatim>\<open>CLOSING\<close> (2) until its \<^verbatim>\<open>close\<close>. \<open>uncaught\<close> is what happens to the result of a listener
  without \<^verbatim>\<open>try\<close>: an exception that left it is printed and ends the process. \<open>emit\<close> is an
  event in a running process; \<open>deliver\<close> is an event at any time: after the process has
  ended, nothing happens any more.
\<close>

datatype event =
    Connection "nat \<Rightarrow> real"
  | Message ws frame
  | Closing ws
  | Close ws
  | Error ws string

fun uncaught :: "server \<times> js_error option \<Rightarrow> server" where
  "uncaught (s, None) = s"
| "uncaught (s, Some e) = (console_log (UncaughtException e) s)\<lparr>ended := True\<rparr>"

fun emit :: "event \<Rightarrow> server \<Rightarrow> server" where
  "emit (Connection rnd) s =
     (let ws = accepted s
      in uncaught (on_connection ws rnd
           (s\<lparr>accepted := Suc ws, clients := clients s @ [ws],
              readyState := (readyState s)(ws := 1)\<rparr>)))"
| "emit (Message ws msg) s =
     (if ws \<in> set (clients s)
      then (case handlers s ws of None \<Rightarrow> s | Some playerId \<Rightarrow> on_message ws playerId msg s)
      else s)"
| "emit (Closing ws) s =
     (if ws \<in> set (clients s) then s\<lparr>readyState := (readyState s)(ws := 2)\<rparr> else s)"
| "emit (Close ws) s =
     (if ws \<in> set (clients s)
      then (let s1 = s\<lparr>readyState := (readyState s)(ws := 3), clients := removeAll ws (clients s)\<rparr>
            in (case handlers s ws of None \<Rightarrow> s1 | Some playerId \<Rightarrow> uncaught (on_close ws playerId s1)))
      else s)"
| "emit (Error ws err) s =
     (if ws \<in> set (clients s)
      then (case handlers s ws of None \<Rightarrow> s | Some playerId \<Rightarrow> on_error ws playerId err s)
      else s)"

definition deliver :: "event \<Rightarrow> server \<Rightarrow> server" where
  "deliver ev s = (if ended s then s else emit ev s)"

definition run :: "event list \<Rightarrow> server \<Rightarrow> server" where
  "run evs s = fold deliver evs s"

text \<open>The messages sent to one socket, in order.\<close>

definition inbox :: "ws \<Rightarrow> server \<Rightarrow> message list" where
  "inbox c s = map snd (filter (\<lambda>e. fst e = c) (sent s))"

section \<open>Client messages and traces\<close>

text \<open>A \<^verbatim>\<open>blockChange\<close> message of a client, as the frame that carries it.\<close>

definition blockChange :: "jsval \<Rightarrow> jsval \<Rightarrow> jsval \<Rightarrow> frame" where
  "blockChange fa la bl =
     Json (JObj [(''type'', JStr ''blockChange''), (''face'', fa), (''layer'', la), (''block'', bl)])"

text \<open>An integer that a double holds exactly.\<close>

definition exact_int :: "int \<Rightarrow> bool" where
  "exact_int n = (\<bar>n\<bar> \<le> 2 ^ 53)"

text \<open>
  The sockets that have been registered and not yet unregistered after a trace of
  events, computed from the trace alone: the \<open>n\<close>-th connection registers the socket
  \<open>n\<close>, a close of a registered socket unregisters it.
\<close>

fun track :: "event \<Rightarrow> nat \<times> ws set \<Rightarrow> nat \<times> ws set" where
  "track (Connection rnd) (n, live) = (Suc n, insert n live)"
| "track (Close ws) (n, live) = (n, live - {ws})"
| "track ev (n, live) = (n, live)"

definition registered :: "event list \<Rightarrow> ws set" where
  "registered evs = snd (fold track evs (0, {}))"

text \<open>
  An event that respects the data model of the world: if it is a \<^verbatim>\<open>blockChange\<close> message,
  its \<^verbatim>\<open>face\<close> and \<^verbatim>\<open>layer\<close> are integers.
\<close>

fun integer_value :: "jsval \<Rightarrow> bool" where
  "integer_value (JNum (SafeInt n)) = exact_int n"
| "integer_value v = False"

fun integer_coords :: "event \<Rightarrow> bool" where
  "integer_coords (Message ws (Json data)) =
     (if get_prop data ''type'' = Inr (JStr ''blockChange'')
      then (case get_prop data ''face'' of Inl e \<Rightarrow> False | Inr fa \<Rightarrow> integer_value fa) \<and>
           (case get_prop data ''layer'' of Inl e \<Rightarrow> False | Inr la \<Rightarrow> integer_value la)
      else True)"
| "integer_coords ev = True"

section \<open>Consistent states and examples\<close>

text \<open>
  What holds of every state the server reaches: \<open>clients\<close> has no socket twice and lists
  the keys of \<open>players\<close> in the same order; every socket in use was accepted; while the
  process runs, every stored record carries the \<^verbatim>\<open>playerId\<close> of its socket's listeners;
  every stored \<^verbatim>\<open>pitch\<close> is one that \<^verbatim>\<open>|| 0\<close> leaves alone; \<open>worldChanges\<close> has every key once.
\<close>

definition consistent :: "server \<Rightarrow> bool" where
  "consistent s =
     (distinct (clients s) \<and> map fst (players s) = clients s \<and>
      (\<forall>c \<in> set (clients s). c < accepted s) \<and>
      (\<forall>e \<in> set (sent s). fst e < accepted s) \<and>
      (\<not> ended s \<longrightarrow> (\<forall>e \<in> set (players s). handlers s (fst e) = Some (player_id (snd e)))) \<and>
      (\<forall>e \<in> set (players s). or_zero (pitch (snd e)) = pitch (snd e)) \<and>
      distinct (map fst (worldChanges s)))"

text \<open>
  A server with three open, registered connections, for the examples, on an engine
  with room for two levels of nesting.
\<close>

definition demo_player :: "string \<Rightarrow> playerData" where
  "demo_player pid =
     \<lparr>player_id = pid, color = \<lparr>col_r = 1 / 2, col_g = 1 / 2, col_b = 1 / 2\<rparr>,
      position = JArr [JNum (SafeInt 0), JNum (SafeInt 102), JNum (SafeInt 0)],
      forward = JArr [JNum (SafeInt 0), JNum (SafeInt 0), JNum (SafeInt (- 1))],
      pitch = JNum (SafeInt 0)\<rparr>"

definition demo_server :: server where
  "demo_server =
     \<lparr>clients = [0, 1, 2], readyState = (\<lambda>c. 1),
      handlers = (\<lambda>c. if c = 0 then Some ''a'' else if c = 1 then Some ''b''
                      else if c = 2 then Some ''c'' else None),
      players = [(0, demo_player ''a''), (1, demo_player ''b''), (2, demo_player ''c'')],
      worldChanges = [], sent = [], console = [], accepted = 3,
      stringify_limit = 2, join_limit = 2, ended = False\<rparr>"

text \<open>Three connections, with different random draws, and a position message.\<close>

definition demo_trace :: "event list" where
  "demo_trace = [Connection (\<lambda>i. 0), Connection (\<lambda>i. 1 / 2), Connection (\<lambda>i. 1 / 4)]"

definition demo_position :: jsval where
  "demo_position = JObj [(''type'', JStr ''position''), (''position'', JArr [JNum (SafeInt 1)]),
     (''forward'', JArr [JNum (SafeInt 2)]), (''pitch'', JNum (SafeInt 3))]"

text \<open>
  A key of \<open>worldChanges\<close> that is the key of a pair of integers: it has two pieces, both
  decode to integers, and it is the text of these two integers.
\<close>

definition integer_key :: "string \<Rightarrow> bool" where
  "integer_key k =
     (case map Number (split (CHR ''_'') k) of
        [Num f, Num l] \<Rightarrow> k = Number_toString (SafeInt f) @ ''_'' @ Number_toString (SafeInt l)
      | _ \<Rightarrow> False)"

text \<open>A trace with one block edit, at integer coordinates.\<close>

definition demo_edits :: "event list" where
  "demo_edits = [Connection (\<lambda>i. 0),
     Message 0 (blockChange (JNum (SafeInt 1)) (JNum (SafeInt (- 7))) (JStr ''sand''))]"

text \<open>An array nested three levels deep: one level more than the example engine has room for.\<close>

definition deep :: jsval where
  "deep = JArr [JArr [JArr []]]"

text \<open>A position message whose position is that array.\<close>

definition deep_position :: jsval where
  "deep_position = JObj [(''type'', JStr ''position''), (''position'', deep),
     (''forward'', JArr [JNum (SafeInt 2)]), (''pitch'', JNum (SafeInt 3))]"

text \<open>A connection that sends a block edit whose block is that array.\<close>

definition deep_edit :: "event list" where
  "deep_edit = [Connection (\<lambda>i. 0),
     Message 0 (blockChange (JNum (SafeInt 1)) (JNum (SafeInt 2)) deep)]"

text \<open>
  A connection that sends three block edits: the first with the text \<^verbatim>\<open>02\<close> as its face,
  the other two with the number 2.
\<close>

definition leading_zero :: "event list" where
  "leading_zero = [Connection (\<lambda>i. 0),
     Message 0 (blockChange (JStr ''02'') (JNum (SafeInt 5)) (JStr ''sand'')),
     Message 0 (blockChange (JNum (SafeInt 2)) (JNum (SafeInt 5)) (JStr ''stone'')),
     Message 0 (blockChange (JNum (SafeInt 2)) (JNum (SafeInt 5)) (JStr ''dirt''))]"


section \<open>Closed forms of the operations\<close>

lemma broadcast_to_eq:
  "broadcast_to msg ex c s = (if recipient s ex c then s\<lparr>sent := sent s @ [(c, msg)]\<rparr> else s)"
  by (cases "Map_get (players s) c") (simp_all add: broadcast_to_def recipient_def ws_send_def)

lemma recipient_sent: "recipient (s\<lparr>sent := x\<rparr>) ex = recipient s ex"
  by (rule ext) (simp add: recipient_def)

lemma recipient_console: "recipient (s\<lparr>console := x\<rparr>) ex = recipient s ex"
  by (rule ext) (simp add: recipient_def)

lemma recipient_fun:
  "recipient s ex = (\<lambda>c. readyState s c = 1 \<and>
      (case Map_get (players s) c of None \<Rightarrow> False | Some d \<Rightarrow> Some (player_id d) \<noteq> ex))"
  by (rule ext) (simp add: recipient_def)

lemma broadcast_fold:
  "fold (broadcast_to msg ex) cs s =
     s\<lparr>sent := sent s @ map (\<lambda>c. (c, msg)) (filter (recipient s ex) cs)\<rparr>"
proof (induction cs arbitrary: s)
  case Nil
  show ?case by simp
next
  case (Cons c cs)
  have "fold (broadcast_to msg ex) (c # cs) s = fold (broadcast_to msg ex) cs (broadcast_to msg ex c s)"
    by simp
  also have "\<dots> = (broadcast_to msg ex c s)\<lparr>sent := sent (broadcast_to msg ex c s) @
       map (\<lambda>c. (c, msg)) (filter (recipient (broadcast_to msg ex c s) ex) cs)\<rparr>"
    by (rule Cons.IH)
  also have "\<dots> = s\<lparr>sent := sent s @ map (\<lambda>c. (c, msg)) (filter (recipient s ex) (c # cs))\<rparr>"
    by (simp add: broadcast_to_eq recipient_sent)
  finally show ?case .
qed

lemma serializes_simps:
  "serializes lvl (Init i c) = True"
  "serializes lvl (PlayerLeave i) = True"
  "serializes lvl (PlayerJoin i c p f t) = (depth p \<le> lvl \<and> depth f \<le> lvl \<and> depth t \<le> lvl)"
  "serializes lvl (PlayerMove i p f t) = (depth p \<le> lvl \<and> depth f \<le> lvl \<and> depth t \<le> lvl)"
  "serializes lvl (BlockChange fa la bl) = (depth fa \<le> lvl \<and> depth la \<le> lvl \<and> depth bl \<le> lvl)"
  "serializes lvl (WorldState cs) = list_all (\<lambda>c. depth (block c) \<le> lvl) cs"
  by (simp_all add: serializes_def list_all_iff)

lemma broadcast_eq:
  "broadcast msg ex s =
     (if serializes (stringify_limit s) msg then Inr (fanout msg ex s) else Inl RangeError)"
  by (simp add: broadcast_def JSON_stringify_def broadcast_fold fanout_def)

lemma send_json_eq:
  "send_json ws msg s =
     (if serializes (stringify_limit s) msg then Inr (s\<lparr>sent := sent s @ [(ws, msg)]\<rparr>)
      else Inl RangeError)"
  by (simp add: send_json_def JSON_stringify_def ws_send_def)

lemma send_existing_eq:
  "send_existing ws ps s =
     (s\<lparr>sent := sent s @ map (\<lambda>e. (ws, existing_player e))
         (takeWhile (\<lambda>e. serializes (stringify_limit s) (existing_player e))
            (filter (\<lambda>e. fst e \<noteq> ws) ps))\<rparr>,
      if list_all (\<lambda>e. serializes (stringify_limit s) (existing_player e))
           (filter (\<lambda>e. fst e \<noteq> ws) ps)
      then None else Some RangeError)"
proof (induction ps arbitrary: s)
  case Nil
  show ?case by simp
next
  case (Cons e ps)
  show ?case
  proof (cases "fst e \<noteq> ws \<and> serializes (stringify_limit s) (existing_player e)")
    case True
    let ?s' = "s\<lparr>sent := sent s @ [(ws, existing_player e)]\<rparr>"
    have "send_existing ws (e # ps) s = send_existing ws ps ?s'"
      using True by (simp add: send_json_eq)
    also have "\<dots> = (?s'\<lparr>sent := sent ?s' @ map (\<lambda>e. (ws, existing_player e))
         (takeWhile (\<lambda>e. serializes (stringify_limit ?s') (existing_player e))
            (filter (\<lambda>e. fst e \<noteq> ws) ps))\<rparr>,
      if list_all (\<lambda>e. serializes (stringify_limit ?s') (existing_player e))
           (filter (\<lambda>e. fst e \<noteq> ws) ps)
      then None else Some RangeError)"
      by (rule Cons.IH)
    finally show ?thesis using True by simp
  next
    case False
    show ?thesis
    proof (cases "fst e \<noteq> ws")
      case True
      with False show ?thesis by (simp add: send_json_eq)
    next
      case False
      then have "send_existing ws (e # ps) s = send_existing ws ps s" by simp
      then show ?thesis using False by (simp add: Cons.IH)
    qed
  qed
qed

lemma on_connection_eq:
  "on_connection ws rnd s =
     (let pd = new_playerData rnd;
          ok = serializes (stringify_limit s);
          others = filter (\<lambda>e. fst e \<noteq> ws) (Map_set (players s) ws pd);
          world = WorldState (snapshotAll (worldChanges s));
          joined = PlayerJoin (player_id pd) (color pd) (position pd) (forward pd) (pitch pd);
          s1 = s\<lparr>players := Map_set (players s) ws pd,
                 console := console s @ [PlayerConnected (player_id pd)]\<rparr>;
          a = list_all (\<lambda>e. ok (existing_player e)) others;
          b = (a \<and> (worldChanges s = [] \<or> ok world));
          c = (b \<and> ok joined)
      in (s1\<lparr>sent := sent s @ (ws, Init (player_id pd) (color pd)) #
               map (\<lambda>e. (ws, existing_player e)) (takeWhile (\<lambda>e. ok (existing_player e)) others) @
               (if b \<and> worldChanges s \<noteq> [] then [(ws, world)] else []) @
               (if c then map (\<lambda>c. (c, joined))
                            (filter (recipient s1 (Some (player_id pd))) (clients s))
                else []),
             handlers := (if c then (handlers s)(ws := Some (player_id pd)) else handlers s)\<rparr>,
          if c then None else Some RangeError))"
proof -
  let ?pd = "new_playerData rnd"
  let ?ok = "serializes (stringify_limit s)"
  let ?others = "filter (\<lambda>e. fst e \<noteq> ws) (Map_set (players s) ws ?pd)"
  show ?thesis
  proof (cases "list_all (\<lambda>e. ?ok (existing_player e)) ?others")
    case True
    then have tw: "takeWhile (\<lambda>e. ?ok (existing_player e)) ?others = ?others"
      by (simp add: takeWhile_eq_all_conv list_all_iff)
    show ?thesis
      using True
      by (simp add: on_connection_def Let_def send_json_eq send_existing_eq broadcast_eq fanout_def
          console_log_def serializes_simps tw recipient_fun)
  next
    case False
    then show ?thesis
      by (simp add: on_connection_def Let_def send_json_eq send_existing_eq console_log_def
          serializes_simps)
  qed
qed

lemma on_close_eq:
  "on_close ws pid s =
     (s\<lparr>console := console s @ [PlayerDisconnected pid],
        players := Map_delete (players s) ws,
        sent := sent s @ map (\<lambda>c. (c, PlayerLeave pid))
          (filter (recipient (s\<lparr>players := Map_delete (players s) ws\<rparr>) None) (clients s))\<rparr>, None)"
  by (simp add: on_close_def Let_def broadcast_eq fanout_def console_log_def recipient_fun
      serializes_simps)

lemma get_prop_total: "get_prop data k = Inr v \<Longrightarrow> \<exists>v'. get_prop data k' = Inr v'"
  by (cases data) simp_all

lemma on_message_not_json:
  "on_message ws pid (NotJson x) s = console_log (ErrorParsingMessage SyntaxError) s"
  by (simp add: on_message_def message_body_def)

lemma on_message_no_type:
  "get_prop data ''type'' = Inl e \<Longrightarrow>
   on_message ws pid (Json data) s = console_log (ErrorParsingMessage e) s"
  by (simp add: on_message_def message_body_def)

lemma on_message_other_type:
  "get_prop data ''type'' = Inr ty \<Longrightarrow> ty \<noteq> JStr ''blockChange'' \<Longrightarrow> ty \<noteq> JStr ''position'' \<Longrightarrow>
   on_message ws pid (Json data) s = s"
  by (simp add: on_message_def message_body_def)

lemma on_message_blockChange:
  assumes "get_prop data ''type'' = Inr (JStr ''blockChange'')"
    and "get_prop data ''face'' = Inr fa" and "get_prop data ''layer'' = Inr la"
    and "get_prop data ''block'' = Inr bl"
  shows "on_message ws pid (Json data) s =
     (case block_key (join_limit s) fa la of
        Inl e \<Rightarrow> console_log (ErrorParsingMessage e) s
      | Inr key \<Rightarrow> notify (BlockChange fa la bl) (Some pid)
          (s\<lparr>worldChanges := Map_set (worldChanges s) key bl\<rparr>))"
  using assms
  by (simp add: on_message_def message_body_def broadcast_eq notify_def Let_def split: sum.split)

lemma on_message_position:
  assumes "get_prop data ''type'' = Inr (JStr ''position'')"
    and "get_prop data ''position'' = Inr p" and "get_prop data ''forward'' = Inr f"
    and "get_prop data ''pitch'' = Inr t"
  shows "on_message ws pid (Json data) s =
     notify (PlayerMove pid p f (or_zero t)) (Some pid) (set_motion ws p f (or_zero t) s)"
proof -
  have "stringify_limit (set_motion ws p f (or_zero t) s) = stringify_limit s"
    by (simp add: set_motion_def)
  then show ?thesis
    using assms by (simp add: on_message_def message_body_def broadcast_eq notify_def Let_def)
qed

lemma on_message_cases:
  "(\<exists>e. on_message ws pid frm s = console_log (ErrorParsingMessage e) s) \<or>
   on_message ws pid frm s = s \<or>
   (\<exists>fa la bl key. block_key (join_limit s) fa la = Inr key \<and>
      on_message ws pid frm s = notify (BlockChange fa la bl) (Some pid)
        (s\<lparr>worldChanges := Map_set (worldChanges s) key bl\<rparr>)) \<or>
   (\<exists>p f t. on_message ws pid frm s = notify (PlayerMove pid p f (or_zero t)) (Some pid)
        (set_motion ws p f (or_zero t) s))"
proof (cases frm)
  case (NotJson x)
  have "on_message ws pid frm s = console_log (ErrorParsingMessage SyntaxError) s"
    by (simp add: NotJson on_message_not_json)
  then show ?thesis by blast
next
  case (Json data)
  show ?thesis
  proof (cases "get_prop data ''type''")
    case (Inl e)
    then have "on_message ws pid frm s = console_log (ErrorParsingMessage e) s"
      by (simp add: Json on_message_no_type)
    then show ?thesis by blast
  next
    case (Inr ty)
    from get_prop_total [OF Inr] obtain fa la bl p f t where
      props: "get_prop data ''face'' = Inr fa" "get_prop data ''layer'' = Inr la"
        "get_prop data ''block'' = Inr bl" "get_prop data ''position'' = Inr p"
        "get_prop data ''forward'' = Inr f" "get_prop data ''pitch'' = Inr t"
      by metis
    consider "ty = JStr ''blockChange''" | "ty = JStr ''position''"
      | "ty \<noteq> JStr ''blockChange''" "ty \<noteq> JStr ''position''"
      by blast
    then show ?thesis
    proof cases
      case 1
      show ?thesis
      proof (cases "block_key (join_limit s) fa la")
        case (Inl e)
        have "on_message ws pid frm s = console_log (ErrorParsingMessage e) s"
          using on_message_blockChange [of data fa la bl ws pid s] Inr 1 props Inl
          by (simp add: Json)
        then show ?thesis by blast
      next
        case (Inr key)
        have "on_message ws pid frm s = notify (BlockChange fa la bl) (Some pid)
          (s\<lparr>worldChanges := Map_set (worldChanges s) key bl\<rparr>)"
          using on_message_blockChange [of data fa la bl ws pid s] \<open>get_prop data ''type'' = Inr ty\<close>
            1 props Inr
          by (simp add: Json)
        with Inr show ?thesis by blast
      qed
    next
      case 2
      have "on_message ws pid frm s =
         notify (PlayerMove pid p f (or_zero t)) (Some pid) (set_motion ws p f (or_zero t) s)"
        using on_message_position [of data p f t ws pid s] Inr 2 props by (simp add: Json)
      then show ?thesis by blast
    next
      case 3
      then have "on_message ws pid frm s = s"
        using on_message_other_type [OF Inr] by (simp add: Json)
      then show ?thesis by blast
    qed
  qed
qed

lemma or_zero_idem: "or_zero (or_zero t) = or_zero t"
  by (simp add: or_zero_def)

lemma Map_set_keys: "map fst (Map_set m k v) = (if k \<in> set (map fst m) then map fst m else map fst m @ [k])"
  by (induction m) auto

lemma Map_set_distinct: "distinct (map fst m) \<Longrightarrow> distinct (map fst (Map_set m k v))"
  by (simp add: Map_set_keys)

lemma Map_set_set: "set (Map_set m k v) \<subseteq> insert (k, v) (set m)"
  by (induction m) auto

lemma Map_get_set: "Map_get (Map_set m k v) = (Map_get m)(k := Some v)"
  by (induction m) (auto simp: Map_get_def)

lemma Map_delete_keys: "map fst (Map_delete m k) = removeAll k (map fst m)"
  by (induction m) (auto simp: Map_delete_def)

lemma Map_get_delete: "Map_get (Map_delete m k) = (Map_get m)(k := None)"
  by (induction m) (auto simp: Map_delete_def Map_get_def)

lemma Map_set_fresh: "k \<notin> set (map fst m) \<Longrightarrow> Map_set m k v = m @ [(k, v)]"
  by (induction m) auto

lemma Map_delete_set: "set (Map_delete m k) \<subseteq> set m"
  by (auto simp: Map_delete_def)

lemma set_motion_keys: "map fst (players (set_motion ws p f t s)) = map fst (players s)"
proof -
  have "map fst (map (\<lambda>e. if fst e = ws
           then (fst e, (snd e)\<lparr>position := p, forward := f, pitch := t\<rparr>) else e) ps) = map fst ps"
    for ps :: "(ws \<times> playerData) list"
    by (induction ps) auto
  then show ?thesis by (simp add: set_motion_def)
qed

lemma set_motion_entry:
  assumes "e \<in> set (players (set_motion ws p f t s))"
  shows "\<exists>e' \<in> set (players s). fst e = fst e' \<and> player_id (snd e) = player_id (snd e') \<and>
           color (snd e) = color (snd e') \<and> (pitch (snd e) = pitch (snd e') \<or> pitch (snd e) = t)"
proof -
  from assms have "e \<in> (\<lambda>e0. if fst e0 = ws
           then (fst e0, (snd e0)\<lparr>position := p, forward := f, pitch := t\<rparr>) else e0) ` set (players s)"
    by (simp add: set_motion_def)
  then obtain e0 where e: "e = (if fst e0 = ws
           then (fst e0, (snd e0)\<lparr>position := p, forward := f, pitch := t\<rparr>) else e0)"
    and e0: "e0 \<in> set (players s)"
    by (rule imageE)
  show ?thesis
    by (rule bexI [OF _ e0]) (simp add: e)
qed

lemma set_motion_other:
  "clients (set_motion ws p f t s) = clients s"
  "readyState (set_motion ws p f t s) = readyState s"
  "handlers (set_motion ws p f t s) = handlers s"
  "worldChanges (set_motion ws p f t s) = worldChanges s"
  "sent (set_motion ws p f t s) = sent s"
  "console (set_motion ws p f t s) = console s"
  "accepted (set_motion ws p f t s) = accepted s"
  "stringify_limit (set_motion ws p f t s) = stringify_limit s"
  "join_limit (set_motion ws p f t s) = join_limit s"
  "ended (set_motion ws p f t s) = ended s"
  by (simp_all add: set_motion_def)

lemma fanout_other:
  "clients (fanout msg ex s) = clients s"
  "readyState (fanout msg ex s) = readyState s"
  "handlers (fanout msg ex s) = handlers s"
  "worldChanges (fanout msg ex s) = worldChanges s"
  "players (fanout msg ex s) = players s"
  "console (fanout msg ex s) = console s"
  "accepted (fanout msg ex s) = accepted s"
  "stringify_limit (fanout msg ex s) = stringify_limit s"
  "join_limit (fanout msg ex s) = join_limit s"
  "ended (fanout msg ex s) = ended s"
  by (simp_all add: fanout_def)

lemma notify_other:
  "clients (notify msg ex s) = clients s"
  "readyState (notify msg ex s) = readyState s"
  "handlers (notify msg ex s) = handlers s"
  "worldChanges (notify msg ex s) = worldChanges s"
  "players (notify msg ex s) = players s"
  "accepted (notify msg ex s) = accepted s"
  "stringify_limit (notify msg ex s) = stringify_limit s"
  "join_limit (notify msg ex s) = join_limit s"
  "ended (notify msg ex s) = ended s"
  by (simp_all add: notify_def fanout_def console_log_def)

lemma notify_sent:
  "sent (notify msg ex s) =
     sent s @ (if serializes (stringify_limit s) msg
               then map (\<lambda>c. (c, msg)) (filter (recipient s ex) (clients s)) else [])"
  by (simp add: notify_def fanout_def console_log_def)

lemma fanout_sent_fst:
  "fst ` set (sent (fanout msg ex s)) \<subseteq> fst ` set (sent s) \<union> set (clients s)"
  by (auto simp: fanout_def)

lemma consistent_init: "consistent (init sl jl)"
  by (simp add: consistent_def init_def)

lemma consistent_log: "consistent s \<Longrightarrow> consistent (console_log l s)"
  by (simp add: consistent_def console_log_def)

lemma consistent_fanout:
  assumes "consistent s"
  shows "consistent (fanout msg ex s)"
proof -
  have "fst e < accepted s" if "e \<in> set (sent (fanout msg ex s))" for e
  proof -
    from that have "fst e \<in> fst ` set (sent s) \<union> set (clients s)"
      using fanout_sent_fst [of msg ex s] by blast
    with assms show ?thesis by (auto simp: consistent_def)
  qed
  with assms show ?thesis by (simp add: consistent_def fanout_other)
qed

lemma consistent_notify: "consistent s \<Longrightarrow> consistent (notify msg ex s)"
  by (simp add: notify_def consistent_fanout consistent_log)

lemma consistent_set_motion:
  assumes "consistent s"
  shows "consistent (set_motion ws p f (or_zero t) s)"
proof -
  have "(\<not> ended s \<longrightarrow> handlers s (fst e) = Some (player_id (snd e))) \<and>
        or_zero (pitch (snd e)) = pitch (snd e)"
    if "e \<in> set (players (set_motion ws p f (or_zero t) s))" for e
    using set_motion_entry [OF that] assms by (auto simp: consistent_def or_zero_idem)
  with assms show ?thesis
    by (simp add: consistent_def set_motion_other set_motion_keys)
qed

lemma consistent_world:
  assumes "consistent s"
  shows "consistent (s\<lparr>worldChanges := Map_set (worldChanges s) key bl\<rparr>)"
  using assms by (simp add: consistent_def Map_set_distinct)

lemma consistent_on_message:
  assumes "consistent s"
  shows "consistent (on_message ws pid frm s)"
proof -
  consider (err) e where "on_message ws pid frm s = console_log (ErrorParsingMessage e) s"
    | (same) "on_message ws pid frm s = s"
    | (block) fa la bl key where "on_message ws pid frm s = notify (BlockChange fa la bl) (Some pid)
        (s\<lparr>worldChanges := Map_set (worldChanges s) key bl\<rparr>)"
    | (move) p f t where "on_message ws pid frm s = notify (PlayerMove pid p f (or_zero t)) (Some pid)
        (set_motion ws p f (or_zero t) s)"
    using on_message_cases [of ws pid frm s] by blast
  then show ?thesis
  proof cases
    case err
    with assms show ?thesis by (simp add: consistent_log)
  next
    case same
    with assms show ?thesis by simp
  next
    case block
    with assms show ?thesis
      by (simp add: consistent_notify consistent_world)
  next
    case move
    with assms show ?thesis
      by (simp add: consistent_notify consistent_set_motion)
  qed
qed

lemma consistent_on_close:
  assumes "consistent s"
  shows "consistent (uncaught (on_close ws pid
           (s\<lparr>readyState := (readyState s)(ws := 3), clients := removeAll ws (clients s)\<rparr>)))"
proof -
  let ?s1 = "s\<lparr>readyState := (readyState s)(ws := 3), clients := removeAll ws (clients s),
        console := console s @ [PlayerDisconnected pid], players := Map_delete (players s) ws\<rparr>"
  have "consistent ?s1"
    using assms Map_delete_set [of "players s" ws]
    by (auto simp: consistent_def Map_delete_keys distinct_removeAll)
  then have "consistent (fanout (PlayerLeave pid) None ?s1)"
    by (rule consistent_fanout)
  then show ?thesis by (simp add: on_close_eq fanout_def recipient_fun)
qed

lemma consistent_on_connection:
  assumes "consistent s"
  shows "consistent (uncaught (on_connection (accepted s) rnd
           (s\<lparr>accepted := Suc (accepted s), clients := clients s @ [accepted s],
              readyState := (readyState s)(accepted s := 1)\<rparr>)))"
proof -
  let ?a = "accepted s"
  let ?pd = "new_playerData rnd"
  let ?s0 = "s\<lparr>accepted := Suc ?a, clients := clients s @ [?a],
              readyState := (readyState s)(?a := 1)\<rparr>"
  let ?r = "uncaught (on_connection ?a rnd ?s0)"
  have fresh: "?a \<notin> set (map fst (players s))"
    using assms by (auto simp: consistent_def)
  have pl: "Map_set (players s) ?a ?pd = players s @ [(?a, ?pd)]"
    using fresh by (rule Map_set_fresh)
  have pitch0: "or_zero (pitch ?pd) = pitch ?pd"
    by (simp add: new_playerData_def Let_def or_zero_def)
  have fresh': "fst e \<noteq> ?a" if "e \<in> set (players s)" for e
    using fresh that by (auto simp: image_iff)
  have fields: "clients ?r = clients s @ [?a]" "players ?r = players s @ [(?a, ?pd)]"
    "accepted ?r = Suc ?a" "worldChanges ?r = worldChanges s"
    by (simp_all add: on_connection_eq Let_def pl console_log_def)
  have hand: "handlers ?r = (handlers s)(?a := Some (player_id ?pd))" if "\<not> ended ?r"
    using that by (auto simp: on_connection_eq Let_def console_log_def split: if_splits)
  have live: "\<not> ended s" if "\<not> ended ?r"
    using that by (auto simp: on_connection_eq Let_def console_log_def split: if_splits)
  have sent: "fst e < Suc ?a" if "e \<in> set (sent ?r)" for e
  proof -
    from that have "fst e \<in> fst ` set (sent s) \<union> set (clients s) \<union> {?a}"
      by (auto simp: on_connection_eq Let_def console_log_def dest: set_takeWhileD split: if_splits)
    with assms show ?thesis by (auto simp: consistent_def less_Suc_eq)
  qed
  have h: "handlers ?r (fst e) = Some (player_id (snd e))"
    if "\<not> ended ?r" "e \<in> set (players ?r)" for e
  proof -
    have hd: "handlers ?r = (handlers s)(?a := Some (player_id ?pd))"
      using that(1) by (rule hand)
    have mem: "e \<in> set (players s) \<or> e = (?a, ?pd)"
      using that(2) unfolding fields by auto
    have old: "handlers s (fst e') = Some (player_id (snd e'))" if "e' \<in> set (players s)" for e'
      using assms live [OF \<open>\<not> ended ?r\<close>] that by (auto simp: consistent_def)
    from mem show ?thesis
    proof
      assume "e \<in> set (players s)"
      with old [of e] fresh' [of e] show ?thesis unfolding hd by simp
    next
      assume "e = (?a, ?pd)"
      then show ?thesis unfolding hd by simp
    qed
  qed
  show ?thesis
    unfolding consistent_def
  proof (intro conjI impI ballI)
    show "distinct (clients ?r)"
      unfolding fields using assms fresh by (auto simp: consistent_def)
  next
    show "map fst (players ?r) = clients ?r"
      unfolding fields using assms by (simp add: consistent_def)
  next
    fix c
    assume "c \<in> set (clients ?r)"
    then show "c < accepted ?r"
      unfolding fields using assms by (auto simp: consistent_def less_Suc_eq)
  next
    fix e
    assume "e \<in> set (sent ?r)"
    then show "fst e < accepted ?r"
      unfolding fields(3) by (rule sent)
  next
    fix e
    assume "\<not> ended ?r" "e \<in> set (players ?r)"
    then show "handlers ?r (fst e) = Some (player_id (snd e))" by (rule h)
  next
    fix e
    assume "e \<in> set (players ?r)"
    then show "or_zero (pitch (snd e)) = pitch (snd e)"
      unfolding fields using assms pitch0 by (auto simp: consistent_def)
  next
    show "distinct (map fst (worldChanges ?r))"
      unfolding fields using assms by (simp add: consistent_def)
  qed
qed

lemma consistent_closing:
  "consistent s \<Longrightarrow> consistent (s\<lparr>readyState := r\<rparr>)"
  by (simp add: consistent_def)

lemma consistent_removed:
  assumes "consistent s" "\<not> ended s" "handlers s ws = None"
  shows "ws \<notin> set (clients s)"
proof
  assume "ws \<in> set (clients s)"
  with assms(1) have "ws \<in> set (map fst (players s))" by (simp add: consistent_def)
  then obtain e where "e \<in> set (players s)" "fst e = ws" by auto
  with assms(1,2) have "handlers s ws = Some (player_id (snd e))" by (auto simp: consistent_def)
  with assms(3) show False by simp
qed

lemma consistent_emit:
  assumes "consistent s" "\<not> ended s"
  shows "consistent (emit ev s)"
proof (cases ev)
  case (Connection rnd)
  from consistent_on_connection [OF assms(1), of rnd] show ?thesis
    by (simp add: Connection Let_def)
next
  case (Message ws frm)
  show ?thesis
  proof (cases "handlers s ws")
    case None
    then show ?thesis using assms by (simp add: Message)
  next
    case (Some pid)
    then show ?thesis using assms consistent_on_message [OF assms(1), of ws pid frm]
      by (simp add: Message)
  qed
next
  case (Closing ws)
  show ?thesis using consistent_closing [OF assms(1)] assms by (simp add: Closing)
next
  case (Close ws)
  show ?thesis
  proof (cases "handlers s ws")
    case None
    then have "ws \<notin> set (clients s)" using assms by (simp add: consistent_removed)
    then show ?thesis using assms by (simp add: Close)
  next
    case (Some pid)
    then show ?thesis using assms consistent_on_close [OF assms(1), of ws pid]
      by (simp add: Close Let_def)
  qed
next
  case (Error ws err)
  show ?thesis using assms
    by (simp add: Error on_error_def consistent_log split: option.split)
qed

lemma consistent_deliver: "consistent s \<Longrightarrow> consistent (deliver ev s)"
  by (simp add: deliver_def consistent_emit)

lemma consistent_run: "consistent s \<Longrightarrow> consistent (run evs s)"
  unfolding run_def by (induction evs arbitrary: s) (simp_all add: consistent_deliver)

lemma set_motion_get:
  "Map_get (players (set_motion ws p f t s)) c =
     (if c = ws then map_option (\<lambda>d. d\<lparr>position := p, forward := f, pitch := t\<rparr>) (Map_get (players s) ws)
      else Map_get (players s) c)"
proof -
  have "map_of (map (\<lambda>e. if fst e = ws
           then (fst e, (snd e)\<lparr>position := p, forward := f, pitch := t\<rparr>) else e) m) c =
     (if c = ws then map_option (\<lambda>d. d\<lparr>position := p, forward := f, pitch := t\<rparr>) (map_of m ws)
      else map_of m c)" for m :: "(ws \<times> playerData) list"
    by (induction m) auto
  then show ?thesis by (simp add: set_motion_def Map_get_def)
qed

lemma recipient_set_motion: "recipient (set_motion ws p f t s) ex = recipient s ex"
  by (rule ext) (auto simp: recipient_def set_motion_get set_motion_other split: option.splits)

section \<open>Traces\<close>

lemma run_Nil: "run [] s = s"
  by (simp add: run_def)

lemma run_Cons: "run (ev # evs) s = run evs (deliver ev s)"
  by (simp add: run_def)

lemma run_append: "run (evs @ evs') s = run evs' (run evs s)"
  by (simp add: run_def)

lemma consistent_reached: "consistent (run evs (init sl jl))"
  by (simp add: consistent_run consistent_init)

lemma deliver_ended: "ended s \<Longrightarrow> deliver ev s = s"
  by (simp add: deliver_def)

lemma run_ended: "ended s \<Longrightarrow> run evs s = s"
  by (induction evs) (simp_all add: run_Nil run_Cons deliver_ended)

lemma deliver_live: "\<not> ended s \<Longrightarrow> deliver ev s = emit ev s"
  by (simp add: deliver_def)

lemma live_before:
  assumes "\<not> ended (run evs s)"
  shows "\<not> ended s"
proof
  assume "ended s"
  then have "run evs s = s" by (rule run_ended)
  with assms \<open>ended s\<close> show False by simp
qed

lemma on_message_frame:
  "clients (on_message ws pid frm s) = clients s \<and>
   readyState (on_message ws pid frm s) = readyState s \<and>
   handlers (on_message ws pid frm s) = handlers s \<and>
   accepted (on_message ws pid frm s) = accepted s \<and>
   stringify_limit (on_message ws pid frm s) = stringify_limit s \<and>
   join_limit (on_message ws pid frm s) = join_limit s \<and>
   ended (on_message ws pid frm s) = ended s \<and>
   map fst (players (on_message ws pid frm s)) = map fst (players s)"
proof -
  consider (err) e where "on_message ws pid frm s = console_log (ErrorParsingMessage e) s"
    | (same) "on_message ws pid frm s = s"
    | (block) fa la bl key where "on_message ws pid frm s = notify (BlockChange fa la bl) (Some pid)
        (s\<lparr>worldChanges := Map_set (worldChanges s) key bl\<rparr>)"
    | (move) p f t where "on_message ws pid frm s = notify (PlayerMove pid p f (or_zero t)) (Some pid)
        (set_motion ws p f (or_zero t) s)"
    using on_message_cases [of ws pid frm s] by blast
  then show ?thesis
  proof cases
    case err
    then show ?thesis by (simp add: console_log_def)
  next
    case same
    then show ?thesis by simp
  next
    case block
    then show ?thesis by (simp add: notify_other)
  next
    case move
    then show ?thesis by (simp add: notify_other set_motion_other set_motion_keys)
  qed
qed

lemma limits_emit:
  "stringify_limit (emit ev s) = stringify_limit s \<and> join_limit (emit ev s) = join_limit s"
proof (cases ev)
  case (Connection rnd)
  show ?thesis by (simp add: Connection Let_def on_connection_eq console_log_def)
next
  case (Message ws frm)
  show ?thesis by (simp add: Message on_message_frame split: option.split)
next
  case (Closing ws)
  show ?thesis by (simp add: Closing)
next
  case (Close ws)
  show ?thesis by (simp add: Close Let_def on_close_eq split: option.split)
next
  case (Error ws err)
  show ?thesis by (simp add: Error on_error_def console_log_def split: option.split)
qed

lemma limits_run:
  "stringify_limit (run evs s) = stringify_limit s \<and> join_limit (run evs s) = join_limit s"
proof (induction evs arbitrary: s)
  case Nil
  show ?case by (simp add: run_Nil)
next
  case (Cons ev evs)
  have "stringify_limit (deliver ev s) = stringify_limit s \<and> join_limit (deliver ev s) = join_limit s"
    using limits_emit [of ev s] by (simp add: deliver_def)
  with Cons.IH [of "deliver ev s"] show ?case by (simp add: run_Cons)
qed

lemma limits_reached:
  "stringify_limit (run evs (init sl jl)) = sl" "join_limit (run evs (init sl jl)) = jl"
  by (simp_all add: limits_run init_def)


section \<open>The identity generator\<close>

lemma digit_char_inj:
  assumes "a < 16" "b < 16"
  shows "(digit_char a = digit_char b) = (a = b)"
proof -
  have d: "distinct ''0123456789abcdef''" by simp
  have l: "length ''0123456789abcdef'' = 16" by simp
  show ?thesis
    unfolding digit_char_def
    using nth_eq_iff_index_eq [OF d, of a b] assms by (simp only: l)
qed

lemma variant_digit:
  assumes "(r::nat) < 16"
  shows "(r AND 3) OR 8 = 8 + r mod 4"
proof -
  have "\<forall>r \<in> set [0..<16]. ((r::nat) AND 3) OR 8 = 8 + r mod 4" by code_simp
  with assms show ?thesis by simp
qed

lemma hex_floor:
  assumes "0 \<le> (u::real)" "u < 1"
  shows "nat \<lfloor>u * 16\<rfloor> < 16"
proof -
  have "\<lfloor>u * 16\<rfloor> < 16" using assms by (simp add: floor_less_iff)
  then show ?thesis by arith
qed

lemma replacement_x:
  assumes "0 \<le> u" "u < 1" "0 \<le> u'" "u' < 1"
  shows "(replacement (CHR ''x'') u = replacement (CHR ''x'') u') = (\<lfloor>u * 16\<rfloor> = \<lfloor>u' * 16\<rfloor>)"
proof -
  have n: "0 \<le> \<lfloor>u * 16\<rfloor>" "0 \<le> \<lfloor>u' * 16\<rfloor>" using assms by simp_all
  have "(replacement (CHR ''x'') u = replacement (CHR ''x'') u') = (nat \<lfloor>u * 16\<rfloor> = nat \<lfloor>u' * 16\<rfloor>)"
    using digit_char_inj [OF hex_floor [OF assms(1,2)] hex_floor [OF assms(3,4)]]
    by (simp add: replacement_def Let_def)
  also have "\<dots> = (\<lfloor>u * 16\<rfloor> = \<lfloor>u' * 16\<rfloor>)" using n by (simp add: nat_eq_iff)
  finally show ?thesis .
qed

lemma replacement_y:
  assumes "0 \<le> u" "u < 1" "0 \<le> u'" "u' < 1"
  shows "(replacement (CHR ''y'') u = replacement (CHR ''y'') u') =
           (\<lfloor>u * 16\<rfloor> mod 4 = \<lfloor>u' * 16\<rfloor> mod 4)"
proof -
  let ?r = "nat \<lfloor>u * 16\<rfloor>" and ?r' = "nat \<lfloor>u' * 16\<rfloor>"
  have n: "0 \<le> \<lfloor>u * 16\<rfloor>" "0 \<le> \<lfloor>u' * 16\<rfloor>" using assms by simp_all
  have r: "?r < 16" "?r' < 16" using assms by (simp_all add: hex_floor)
  have v: "8 + ?r mod 4 < 16" "8 + ?r' mod 4 < 16" by simp_all
  have "(replacement (CHR ''y'') u = replacement (CHR ''y'') u') =
      (digit_char (8 + ?r mod 4) = digit_char (8 + ?r' mod 4))"
    using variant_digit [OF r(1)] variant_digit [OF r(2)] by (simp add: replacement_def Let_def)
  also have "\<dots> = (?r mod 4 = ?r' mod 4)"
    using digit_char_inj [OF v] by simp
  also have "\<dots> = (\<lfloor>u * 16\<rfloor> mod 4 = \<lfloor>u' * 16\<rfloor> mod 4)"
  proof -
    have "int (?r mod 4) = \<lfloor>u * 16\<rfloor> mod 4" "int (?r' mod 4) = \<lfloor>u' * 16\<rfloor> mod 4"
      using n by (simp_all add: zmod_int)
    then show ?thesis by (metis of_nat_eq_iff)
  qed
  finally show ?thesis .
qed

lemma replace_xy_eq:
  "(replace_xy cs rnd i = replace_xy cs rnd' i) =
     (\<forall>k < length (filter (\<lambda>c. c = CHR ''x'' \<or> c = CHR ''y'') cs).
        replacement (filter (\<lambda>c. c = CHR ''x'' \<or> c = CHR ''y'') cs ! k) (rnd (i + k)) =
        replacement (filter (\<lambda>c. c = CHR ''x'' \<or> c = CHR ''y'') cs ! k) (rnd' (i + k)))"
proof (induction cs arbitrary: i)
  case Nil
  show ?case by simp
next
  case (Cons c cs)
  show ?case
  proof (cases "c = CHR ''x'' \<or> c = CHR ''y''")
    case True
    then show ?thesis
      using Cons.IH [of "Suc i"] by (simp add: All_less_Suc2)
  next
    case False
    then show ?thesis using Cons.IH [of i] by simp
  qed
qed

lemma template_marks:
  "filter (\<lambda>c. c = CHR ''x'' \<or> c = CHR ''y'') ''xxxxxxxx-xxxx-4xxx-yxxx-xxxxxxxxxxxx'' =
     replicate 15 (CHR ''x'') @ CHR ''y'' # replicate 15 (CHR ''x'')"
  by (simp add: eval_nat_numeral)

lemma template_mark:
  assumes "k < 31"
  shows "(replicate 15 (CHR ''x'') @ CHR ''y'' # replicate 15 (CHR ''x'')) ! k =
           (if k = 15 then CHR ''y'' else CHR ''x'')"
  using assms by (simp add: nth_append nth_Cons split: nat.split)

lemma generateUUID_eq:
  "(generateUUID rnd = generateUUID rnd') =
     (\<forall>k < 31. replacement (if k = 15 then CHR ''y'' else CHR ''x'') (rnd k) =
               replacement (if k = 15 then CHR ''y'' else CHR ''x'') (rnd' k))"
proof -
  have "(generateUUID rnd = generateUUID rnd') =
     (\<forall>k < 31. replacement ((replicate 15 (CHR ''x'') @ CHR ''y'' # replicate 15 (CHR ''x'')) ! k) (rnd k) =
               replacement ((replicate 15 (CHR ''x'') @ CHR ''y'' # replicate 15 (CHR ''x'')) ! k) (rnd' k))"
    unfolding generateUUID_def replace_xy_eq template_marks by simp
  also have "\<dots> = (\<forall>k < 31. replacement (if k = 15 then CHR ''y'' else CHR ''x'') (rnd k) =
               replacement (if k = 15 then CHR ''y'' else CHR ''x'') (rnd' k))"
    by (simp only: template_mark cong: imp_cong)
  finally show ?thesis .
qed

lemma generateUUID_inj:
  assumes "\<And>i. i < 31 \<Longrightarrow> 0 \<le> rnd i \<and> rnd i < 1 \<and> 0 \<le> rnd' i \<and> rnd' i < 1"
  shows "(generateUUID rnd = generateUUID rnd') =
     ((\<forall>i < 31. i \<noteq> 15 \<longrightarrow> \<lfloor>rnd i * 16\<rfloor> = \<lfloor>rnd' i * 16\<rfloor>) \<and>
      \<lfloor>rnd 15 * 16\<rfloor> mod 4 = \<lfloor>rnd' 15 * 16\<rfloor> mod 4)"
proof -
  have each: "(replacement (if k = 15 then CHR ''y'' else CHR ''x'') (rnd k) =
               replacement (if k = 15 then CHR ''y'' else CHR ''x'') (rnd' k)) =
     (if k = 15 then \<lfloor>rnd k * 16\<rfloor> mod 4 = \<lfloor>rnd' k * 16\<rfloor> mod 4
      else \<lfloor>rnd k * 16\<rfloor> = \<lfloor>rnd' k * 16\<rfloor>)" if "k < 31" for k
  proof (cases "k = 15")
    case True
    have "0 \<le> rnd 15 \<and> rnd 15 < 1 \<and> 0 \<le> rnd' 15 \<and> rnd' 15 < 1"
      using assms [of 15] by simp
    then show ?thesis
      unfolding True using replacement_y [of "rnd 15" "rnd' 15"] by simp
  next
    case False
    then show ?thesis
      using assms [OF that] replacement_x [of "rnd k" "rnd' k"] by simp
  qed
  have "(generateUUID rnd = generateUUID rnd') =
     (\<forall>k < 31. if k = 15 then \<lfloor>rnd k * 16\<rfloor> mod 4 = \<lfloor>rnd' k * 16\<rfloor> mod 4
               else \<lfloor>rnd k * 16\<rfloor> = \<lfloor>rnd' k * 16\<rfloor>)"
    unfolding generateUUID_eq using each by blast
  also have "\<dots> = ((\<forall>i < 31. i \<noteq> 15 \<longrightarrow> \<lfloor>rnd i * 16\<rfloor> = \<lfloor>rnd' i * 16\<rfloor>) \<and>
      \<lfloor>rnd 15 * 16\<rfloor> mod 4 = \<lfloor>rnd' 15 * 16\<rfloor> mod 4)"
    by (auto split: if_splits)
  finally show ?thesis .
qed

lemma generateUUID_shape:
  "length (generateUUID rnd) = 36 \<and> generateUUID rnd ! 14 = CHR ''4'' \<and>
   generateUUID rnd ! 8 = CHR ''-'' \<and> generateUUID rnd ! 13 = CHR ''-'' \<and>
   generateUUID rnd ! 18 = CHR ''-'' \<and> generateUUID rnd ! 23 = CHR ''-''"
  by (simp add: generateUUID_def)

lemma uuid0: "generateUUID (\<lambda>i. 0) = ''00000000-0000-4000-8000-000000000000''"
  by (simp add: generateUUID_def replacement_def digit_char_def)

lemma uuidf: "generateUUID (\<lambda>i. 15 / 16) = ''ffffffff-ffff-4fff-bfff-ffffffffffff''"
proof -
  have r: "nat \<lfloor>15 / 16 * (16::real)\<rfloor> = 15" by simp
  have x: "replacement (CHR ''x'') (15 / 16) = CHR ''f''"
    unfolding replacement_def Let_def r by (simp add: digit_char_def)
  have "((15::nat) AND 3) OR 8 = 11" using variant_digit [of 15] by simp
  then have y: "replacement (CHR ''y'') (15 / 16) = CHR ''b''"
    unfolding replacement_def Let_def r by (simp add: digit_char_def)
  show ?thesis by (simp add: generateUUID_def x y)
qed

lemma uuid8: "generateUUID (\<lambda>i. 1 / 2) = ''88888888-8888-4888-8888-888888888888''"
  by (simp add: generateUUID_def replacement_def digit_char_def)

lemma uuid4: "generateUUID (\<lambda>i. 1 / 4) = ''44444444-4444-4444-8444-444444444444''"
  by (simp add: generateUUID_def replacement_def digit_char_def)

lemma uuid0': "generateUUID (\<lambda>i. 1 / 32) = ''00000000-0000-4000-8000-000000000000''"
  by (simp add: generateUUID_def replacement_def digit_char_def)

lemma on_connection_other:
  "clients (fst (on_connection ws rnd s)) = clients s"
  "readyState (fst (on_connection ws rnd s)) = readyState s"
  "worldChanges (fst (on_connection ws rnd s)) = worldChanges s"
  "accepted (fst (on_connection ws rnd s)) = accepted s"
  "ended (fst (on_connection ws rnd s)) = ended s"
  "players (fst (on_connection ws rnd s)) = Map_set (players s) ws (new_playerData rnd)"
  by (simp_all add: on_connection_eq Let_def)

lemma on_connection_handlers:
  "snd (on_connection ws rnd s) = None \<Longrightarrow>
   handlers (fst (on_connection ws rnd s)) = (handlers s)(ws := Some (player_id (new_playerData rnd)))"
  by (auto simp: on_connection_eq Let_def split: if_splits)

lemma uncaught_other:
  "clients (uncaught r) = clients (fst r)"
  "readyState (uncaught r) = readyState (fst r)"
  "worldChanges (uncaught r) = worldChanges (fst r)"
  "accepted (uncaught r) = accepted (fst r)"
  "players (uncaught r) = players (fst r)"
  "sent (uncaught r) = sent (fst r)"
  "handlers (uncaught r) = handlers (fst r)"
  "stringify_limit (uncaught r) = stringify_limit (fst r)"
  "join_limit (uncaught r) = join_limit (fst r)"
  "ended (uncaught r) = (ended (fst r) \<or> snd r \<noteq> None)"
  by (cases r; cases "snd r"; simp add: console_log_def)+

section \<open>Registration\<close>

text \<open>
  C8, as amended. For a new connection, the connection listener creates a record whose
  identity is the identifier just generated from the first 31 random draws and whose
  colour has the three channels computed from the next three draws, with position \<open>(0, 102, 0)\<close>, forward \<open>(0, 0, -1)\<close> and pitch \<open>0\<close>; it stores the
  record in \<open>players\<close> under the connection handle, leaving every other entry as it was, and,
  when it returns without an exception, has installed the listeners of the socket with
  that identity. The identifier has 36 characters, with \<^verbatim>\<open>-\<close> at the positions 8, 13, 18
  and 23 and \<^verbatim>\<open>4\<close> at position 14; draws that are all \<open>0\<close> give the digits \<^verbatim>\<open>0\<close> and the
  variant \<^verbatim>\<open>8\<close>, draws that are all \<open>15/16\<close> the digits \<^verbatim>\<open>f\<close> and the variant \<^verbatim>\<open>b\<close>. It is a
  function of the 31 random draws, and nothing else: for draws in \<open>[0, 1)\<close>, two identifiers are equal exactly when the draws give the
  same hexadecimal digits, that is the same integer part of sixteen times the draw, up
  to a multiple of four for draw 15.
\<close>

theorem register_creates_record:
  "Map_get (players (fst (on_connection ws rnd s))) =
     (Map_get (players s))(ws := Some
       \<lparr>player_id = generateUUID rnd,
        color = \<lparr>col_r = channel (rnd 31), col_g = channel (rnd 32), col_b = channel (rnd 33)\<rparr>,
        position = JArr [JNum (SafeInt 0), JNum (SafeInt 102), JNum (SafeInt 0)],
        forward = JArr [JNum (SafeInt 0), JNum (SafeInt 0), JNum (SafeInt (- 1))],
        pitch = JNum (SafeInt 0)\<rparr>) \<and>
   (snd (on_connection ws rnd s) = None \<longrightarrow>
      handlers (fst (on_connection ws rnd s)) ws = Some (generateUUID rnd)) \<and>
   length (generateUUID rnd) = 36 \<and> generateUUID rnd ! 14 = CHR ''4'' \<and>
   generateUUID rnd ! 8 = CHR ''-'' \<and> generateUUID rnd ! 13 = CHR ''-'' \<and>
   generateUUID rnd ! 18 = CHR ''-'' \<and> generateUUID rnd ! 23 = CHR ''-'' \<and>
   generateUUID (\<lambda>i. 0) = ''00000000-0000-4000-8000-000000000000'' \<and>
   generateUUID (\<lambda>i. 15 / 16) = ''ffffffff-ffff-4fff-bfff-ffffffffffff'' \<and>
   ((\<forall>i < 31. 0 \<le> rnd i \<and> rnd i < 1 \<and> 0 \<le> rnd' i \<and> rnd' i < 1) \<longrightarrow>
      (generateUUID rnd = generateUUID rnd') =
        ((\<forall>i < 31. i \<noteq> 15 \<longrightarrow> \<lfloor>rnd i * 16\<rfloor> = \<lfloor>rnd' i * 16\<rfloor>) \<and>
         \<lfloor>rnd 15 * 16\<rfloor> mod 4 = \<lfloor>rnd' 15 * 16\<rfloor> mod 4))"
proof -
  have stored: "Map_get (players (fst (on_connection ws rnd s))) =
     (Map_get (players s))(ws := Some
       \<lparr>player_id = generateUUID rnd,
        color = \<lparr>col_r = channel (rnd 31), col_g = channel (rnd 32), col_b = channel (rnd 33)\<rparr>,
        position = JArr [JNum (SafeInt 0), JNum (SafeInt 102), JNum (SafeInt 0)],
        forward = JArr [JNum (SafeInt 0), JNum (SafeInt 0), JNum (SafeInt (- 1))],
        pitch = JNum (SafeInt 0)\<rparr>)"
    by (simp add: on_connection_other Map_get_set new_playerData_def generateColor_def Let_def)
  have installed: "handlers (fst (on_connection ws rnd s)) ws = Some (generateUUID rnd)"
    if "snd (on_connection ws rnd s) = None"
    using on_connection_handlers [OF that] by (simp add: new_playerData_def Let_def)
  have inj: "(generateUUID rnd = generateUUID rnd') =
        ((\<forall>i < 31. i \<noteq> 15 \<longrightarrow> \<lfloor>rnd i * 16\<rfloor> = \<lfloor>rnd' i * 16\<rfloor>) \<and>
         \<lfloor>rnd 15 * 16\<rfloor> mod 4 = \<lfloor>rnd' 15 * 16\<rfloor> mod 4)"
    if "\<forall>i < 31. 0 \<le> rnd i \<and> rnd i < 1 \<and> 0 \<le> rnd' i \<and> rnd' i < 1"
    by (rule generateUUID_inj) (use that in blast)
  from stored installed inj generateUUID_shape [of rnd] uuid0 uuidf show ?thesis by blast
qed

theorem register_creates_record_witness:
  "map_option player_id (Map_get (players (fst (on_connection 3 (\<lambda>i. 1 / 2) demo_server))) 3) =
     Some ''88888888-8888-4888-8888-888888888888'' \<and>
   snd (on_connection 3 (\<lambda>i. 1 / 2) demo_server) = None \<and>
   handlers (fst (on_connection 3 (\<lambda>i. 1 / 2) demo_server)) 3 =
     Some ''88888888-8888-4888-8888-888888888888'' \<and>
   generateUUID (\<lambda>i. 1 / 2) \<noteq> generateUUID (\<lambda>i. 1 / 4) \<and>
   generateUUID (\<lambda>i. 0) = generateUUID (\<lambda>i. 1 / 32)"
proof -
  have ok: "snd (on_connection 3 (\<lambda>i. 1 / 2) demo_server) = None"
    by (simp add: on_connection_eq Let_def demo_server_def demo_player_def existing_player_def
        serializes_simps new_playerData_def or_zero_def)
  have "\<exists>i < 31. i \<noteq> (15::nat)" by (rule exI [of _ 0]) simp
  then have ne: "generateUUID (\<lambda>i. 1 / 2) \<noteq> generateUUID (\<lambda>i. 1 / 4)"
    using register_creates_record [of 3 "\<lambda>i. 1 / 2" demo_server "\<lambda>i. 1 / 4"] by simp
  have eq: "generateUUID (\<lambda>i. 0) = generateUUID (\<lambda>i. 1 / 32)"
    using register_creates_record [of 3 "\<lambda>i. 0" demo_server "\<lambda>i. 1 / 32"] by (simp add: uuid0')
  from register_creates_record [of 3 "\<lambda>i. 1 / 2" demo_server "\<lambda>i. 1 / 4"] ok ne eq
  show ?thesis by (simp add: uuid8)
qed

text \<open>
  Two connections, the second with other draws than the first, but with the same
  hexadecimal digits: the second record gets the identity that the first record has.
\<close>

theorem repeated_identity_counterexample:
  "map (\<lambda>e. (fst e, player_id (snd e)))
     (players (run [Connection (\<lambda>i. 0), Connection (\<lambda>i. 1 / 32)] (init 2 2))) =
     [(0, ''00000000-0000-4000-8000-000000000000''), (1, ''00000000-0000-4000-8000-000000000000'')]"
  by (simp add: run_def deliver_def Let_def on_connection_other uncaught_other init_def
      new_playerData_def uuid0 uuid0' on_connection_eq existing_player_def serializes_simps
      or_zero_def)

section \<open>Position messages\<close>

text \<open>
  C7. For a \<^verbatim>\<open>position\<close> message whose \<^verbatim>\<open>pitch\<close> is absent, the record stored for the sender
  gets the position and the forward of the message and the pitch \<open>0\<close>, and what the
  listener sends is the \<^verbatim>\<open>playerMove\<close> notice that carries the sender's id, the position
  and the forward of the message and the pitch \<open>0\<close>: once to every recipient of the
  broadcast when the notice can be serialized, and nothing when it cannot.
\<close>

theorem position_without_pitch:
  assumes "get_prop data ''type'' = Inr (JStr ''position'')"
    and "get_prop data ''position'' = Inr p"
    and "get_prop data ''forward'' = Inr f"
    and "get_prop data ''pitch'' = Inr JUndefined"
  shows "sent (on_message ws pid (Json data) s) =
           sent s @ (if serializes (stringify_limit s) (PlayerMove pid p f (JNum (SafeInt 0)))
                     then map (\<lambda>c. (c, PlayerMove pid p f (JNum (SafeInt 0))))
                            (filter (recipient s (Some pid)) (clients s))
                     else []) \<and>
         Map_get (players (on_message ws pid (Json data) s)) ws =
           map_option (\<lambda>d. d\<lparr>position := p, forward := f, pitch := JNum (SafeInt 0)\<rparr>)
             (Map_get (players s) ws)"
proof -
  have z: "or_zero JUndefined = JNum (SafeInt 0)" by (simp add: or_zero_def)
  have "on_message ws pid (Json data) s =
     notify (PlayerMove pid p f (JNum (SafeInt 0))) (Some pid)
       (set_motion ws p f (JNum (SafeInt 0)) s)"
    using on_message_position [OF assms, of ws pid s] by (simp add: z)
  then show ?thesis
    by (simp add: notify_sent notify_other recipient_set_motion set_motion_other set_motion_get)
qed

theorem position_without_pitch_witness:
  "sent (on_message 0 ''a''
     (Json (JObj [(''type'', JStr ''position''), (''position'', JArr [JNum (SafeInt 1)]),
                  (''forward'', JArr [JNum (SafeInt 2)])])) demo_server) =
     [(1, PlayerMove ''a'' (JArr [JNum (SafeInt 1)]) (JArr [JNum (SafeInt 2)]) (JNum (SafeInt 0))),
      (2, PlayerMove ''a'' (JArr [JNum (SafeInt 1)]) (JArr [JNum (SafeInt 2)]) (JNum (SafeInt 0)))] \<and>
   map_option pitch (Map_get (players (on_message 0 ''a''
     (Json (JObj [(''type'', JStr ''position''), (''position'', JArr [JNum (SafeInt 1)]),
                  (''forward'', JArr [JNum (SafeInt 2)])])) demo_server)) 0) = Some (JNum (SafeInt 0))"
  using position_without_pitch [of "JObj [(''type'', JStr ''position''), (''position'', JArr [JNum (SafeInt 1)]),
                  (''forward'', JArr [JNum (SafeInt 2)])]" "JArr [JNum (SafeInt 1)]" "JArr [JNum (SafeInt 2)]"
                  0 "''a''" demo_server]
  by (simp add: demo_server_def demo_player_def recipient_def Map_get_def serializes_simps)

section \<open>Inboxes\<close>

lemma inbox_fanout:
  assumes "distinct cs"
  shows "inbox c (s\<lparr>sent := sent s @ map (\<lambda>c'. (c', m)) cs\<rparr>) =
           inbox c s @ (if c \<in> set cs then [m] else [])"
proof -
  have "map snd (filter (\<lambda>e. fst e = c) (map (\<lambda>c'. (c', m)) cs)) = (if c \<in> set cs then [m] else [])"
    using assms by (induction cs) auto
  then show ?thesis by (simp add: inbox_def)
qed

lemma inbox_console: "inbox c (console_log l s) = inbox c s"
  by (simp add: inbox_def console_log_def)

lemma inbox_notify:
  assumes "distinct (clients s)"
  shows "inbox c (notify m ex s) =
           inbox c s @ (if serializes (stringify_limit s) m \<and> c \<in> set (clients s) \<and> recipient s ex c
                        then [m] else [])"
  using inbox_fanout [of "filter (recipient s ex) (clients s)" c s m] assms
  by (simp add: notify_def fanout_def inbox_console)

section \<open>Traces and the size of the registry\<close>

lemma track_emit:
  assumes "consistent s" "\<not> ended s"
  shows "track ev (accepted s, set (clients s)) =
           (accepted (emit ev s), set (clients (emit ev s)))"
proof (cases ev)
  case (Connection rnd)
  show ?thesis by (simp add: Connection Let_def uncaught_other on_connection_other)
next
  case (Message ws frm)
  show ?thesis by (simp add: Message on_message_frame split: option.split)
next
  case (Closing ws)
  show ?thesis by (simp add: Closing)
next
  case (Close ws)
  show ?thesis
    by (auto simp: Close Let_def on_close_eq split: option.split)
next
  case (Error ws err)
  show ?thesis by (simp add: Error on_error_def console_log_def split: option.split)
qed

lemma live_butlast:
  assumes "\<not> ended (run evs s)"
  shows "\<not> ended (run (butlast evs) s)"
proof (cases "evs = []")
  case True
  with assms show ?thesis by simp
next
  case False
  then have "run evs s = run [last evs] (run (butlast evs) s)"
    by (simp flip: run_append)
  with assms show ?thesis using live_before by metis
qed

lemma track_run:
  assumes "consistent s" "\<not> ended (run (butlast evs) s)"
  shows "fold track evs (accepted s, set (clients s)) =
           (accepted (run evs s), set (clients (run evs s)))"
  using assms(2)
proof (induction evs rule: rev_induct)
  case Nil
  show ?case by (simp add: run_Nil)
next
  case (snoc ev evs)
  from snoc.prems have live: "\<not> ended (run evs s)" by simp
  have c: "consistent (run evs s)" by (rule consistent_run [OF assms(1)])
  have "fold track (evs @ [ev]) (accepted s, set (clients s)) =
          track ev (fold track evs (accepted s, set (clients s)))"
    by simp
  also have "\<dots> = track ev (accepted (run evs s), set (clients (run evs s)))"
    by (simp only: snoc.IH [OF live_butlast [OF live]])
  also have "\<dots> = (accepted (emit ev (run evs s)), set (clients (emit ev (run evs s))))"
    by (rule track_emit [OF c live])
  also have "emit ev (run evs s) = run (evs @ [ev]) s"
    using live by (simp add: run_append run_Cons run_Nil deliver_live)
  finally show ?case .
qed

lemma clients_registered:
  assumes "\<not> ended (run (butlast evs) (init sl jl))"
  shows "set (clients (run evs (init sl jl))) = registered evs"
proof -
  have "fold track evs (0, {}) = (accepted (run evs (init sl jl)), set (clients (run evs (init sl jl))))"
    using track_run [OF consistent_init assms] by (simp add: init_def)
  then show ?thesis by (simp add: registered_def)
qed

text \<open>
  C6. After every sequence of events, no socket is a key of \<open>players\<close> twice, the keys of
  \<open>players\<close> are the sockets the transport holds open, and the number of entries is the
  number of these sockets. When every event of the sequence reached a running process,
  that is, the process had not ended before the last event, these sockets are the
  sockets that have been registered and not yet unregistered, counted from the sequence
  of events alone, and the number of entries of \<open>players\<close> is their number.
\<close>

theorem registry_size:
  "distinct (map fst (players (run evs (init sl jl)))) \<and>
   set (map fst (players (run evs (init sl jl)))) = set (clients (run evs (init sl jl))) \<and>
   length (players (run evs (init sl jl))) = card (set (clients (run evs (init sl jl)))) \<and>
   (\<not> ended (run (butlast evs) (init sl jl)) \<longrightarrow>
      length (players (run evs (init sl jl))) = card (registered evs) \<and>
      set (map fst (players (run evs (init sl jl)))) = registered evs \<and>
      set (clients (run evs (init sl jl))) = registered evs)"
proof -
  let ?s = "run evs (init sl jl)"
  have c: "consistent ?s" by (rule consistent_reached)
  then have keys: "map fst (players ?s) = clients ?s"
    and d: "distinct (clients ?s)"
    by (simp_all add: consistent_def)
  have "length (players ?s) = length (map fst (players ?s))" by simp
  also have "\<dots> = card (set (clients ?s))"
    using d by (simp add: keys distinct_card)
  finally have n: "length (players ?s) = card (set (clients ?s))" .
  have k: "set (map fst (players ?s)) = set (clients ?s)" by (simp only: keys)
  have dk: "distinct (map fst (players ?s))" using d by (simp only: keys)
  have r: "set (clients ?s) = registered evs" if "\<not> ended (run (butlast evs) (init sl jl))"
    using that by (rule clients_registered)
  from n k dk r show ?thesis by simp
qed

lemma demo_trace_state:
  "clients (run demo_trace (init 2 2)) = [0, 1, 2] \<and>
   map (\<lambda>e. (fst e, player_id (snd e))) (players (run demo_trace (init 2 2))) =
     [(0, ''00000000-0000-4000-8000-000000000000''),
      (1, ''88888888-8888-4888-8888-888888888888''),
      (2, ''44444444-4444-4444-8444-444444444444'')] \<and>
   readyState (run demo_trace (init 2 2)) 0 = 1 \<and> readyState (run demo_trace (init 2 2)) 1 = 1 \<and>
   readyState (run demo_trace (init 2 2)) 2 = 1 \<and> \<not> ended (run demo_trace (init 2 2))"
  by (simp add: demo_trace_def run_def deliver_def Let_def on_connection_eq init_def
      new_playerData_def uuid0 uuid8 uuid4 existing_player_def serializes_simps or_zero_def
      console_log_def)

lemma demo_trace_players:
  "map_option player_id (Map_get (players (run demo_trace (init 2 2))) 0) = Some ''00000000-0000-4000-8000-000000000000'' \<and>
   map_option player_id (Map_get (players (run demo_trace (init 2 2))) 1) = Some ''88888888-8888-4888-8888-888888888888'' \<and>
   map_option player_id (Map_get (players (run demo_trace (init 2 2))) 2) = Some ''44444444-4444-4444-8444-444444444444''"
proof -
  have "map_option player_id (map_of m k) = map_of (map (\<lambda>e. (fst e, player_id (snd e))) m) k"
    for m :: "(ws \<times> playerData) list" and k
    by (induction m) auto
  then show ?thesis
    using demo_trace_state by (simp add: Map_get_def)
qed

theorem registry_size_witness:
  "\<not> ended (run (butlast (demo_trace @ [Close 1])) (init 2 2)) \<and>
   registered (demo_trace @ [Close 1]) = {0, 2} \<and>
   length (players (run (demo_trace @ [Close 1]) (init 2 2))) = 2 \<and>
   set (clients (run (demo_trace @ [Close 1]) (init 2 2))) = {0, 2}"
proof -
  have live: "\<not> ended (run (butlast (demo_trace @ [Close 1])) (init 2 2))"
    using demo_trace_state by simp
  have reg: "registered (demo_trace @ [Close 1]) = {0, 2}"
    by (auto simp: registered_def demo_trace_def)
  from registry_size [of "demo_trace @ [Close 1]" 2 2] live
  have n: "length (players (run (demo_trace @ [Close 1]) (init 2 2))) =
             card (registered (demo_trace @ [Close 1]))"
    and o: "set (clients (run (demo_trace @ [Close 1]) (init 2 2))) = registered (demo_trace @ [Close 1])"
    by blast+
  have two: "card {0, 2::nat} = 2" by simp
  show ?thesis
    unfolding n o reg two using live by simp
qed

lemma registered_record:
  assumes "consistent s" "\<not> ended s" "ws \<in> set (clients s)"
  shows "\<exists>d. Map_get (players s) ws = Some d \<and> handlers s ws = Some (player_id d)"
proof -
  from assms have "ws \<in> set (map fst (players s))" by (simp add: consistent_def)
  then obtain d where "Map_get (players s) ws = Some d"
    by (cases "map_of (players s) ws") (auto simp: Map_get_def map_of_eq_None_iff)
  moreover from this have "(ws, d) \<in> set (players s)"
    by (simp add: Map_get_def map_of_SomeD)
  with assms(1,2) have "handlers s ws = Some (player_id d)" by (auto simp: consistent_def)
  ultimately show ?thesis by blast
qed

lemma stored_record:
  assumes "consistent s" "ws \<in> set (clients s)"
  shows "\<exists>d. Map_get (players s) ws = Some d"
proof -
  from assms have "ws \<in> set (map fst (players s))" by (simp add: consistent_def)
  then show ?thesis
    by (cases "map_of (players s) ws") (auto simp: Map_get_def map_of_eq_None_iff)
qed

lemma unregistered_record:
  assumes "consistent s" "ws \<notin> set (clients s)"
  shows "Map_get (players s) ws = None"
  using assms by (simp add: consistent_def Map_get_def map_of_eq_None_iff flip: set_map)

section \<open>Fan-out of a position message\<close>

text \<open>
  C3. When a registered connection \<open>ws\<close> of the running server sends a \<^verbatim>\<open>position\<close> message,
  the record of \<open>ws\<close> is updated, and the \<^verbatim>\<open>playerMove\<close> notice is not delivered to \<open>ws\<close>. If
  the notice can be serialized, every connection receives it exactly once if it is
  open, registered and its record's id is not the sender's id, and not at all
  otherwise; when the ids of the registered records are pairwise different, the
  receivers are exactly the other open connections. If the notice cannot be serialized,
  because the position or the forward of the message is nested too deeply, the record
  is updated all the same, but nothing is sent to anyone: the exception of
  \<^verbatim>\<open>JSON.stringify\<close> is caught and logged.
\<close>

theorem position_fanout:
  assumes ws: "ws \<in> set (clients (run evs (init sl jl)))"
    and live: "\<not> ended (run evs (init sl jl))"
    and ty: "get_prop data ''type'' = Inr (JStr ''position'')"
    and p: "get_prop data ''position'' = Inr p"
    and f: "get_prop data ''forward'' = Inr f"
    and t: "get_prop data ''pitch'' = Inr t"
  shows "\<exists>d. Map_get (players (run evs (init sl jl))) ws = Some d \<and>
     Map_get (players (deliver (Message ws (Json data)) (run evs (init sl jl)))) ws =
       Some (d\<lparr>position := p, forward := f, pitch := or_zero t\<rparr>) \<and>
     inbox ws (deliver (Message ws (Json data)) (run evs (init sl jl))) =
       inbox ws (run evs (init sl jl)) \<and>
     (\<forall>c. inbox c (deliver (Message ws (Json data)) (run evs (init sl jl))) =
           inbox c (run evs (init sl jl)) @
           (if serializes sl (PlayerMove (player_id d) p f (or_zero t)) \<and>
               c \<in> set (clients (run evs (init sl jl))) \<and> readyState (run evs (init sl jl)) c = 1 \<and>
               map_option player_id (Map_get (players (run evs (init sl jl))) c) \<noteq> Some (player_id d)
            then [PlayerMove (player_id d) p f (or_zero t)] else [])) \<and>
     (distinct (map (\<lambda>e. player_id (snd e)) (players (run evs (init sl jl)))) \<longrightarrow>
      (\<forall>c. inbox c (deliver (Message ws (Json data)) (run evs (init sl jl))) =
           inbox c (run evs (init sl jl)) @
           (if serializes sl (PlayerMove (player_id d) p f (or_zero t)) \<and>
               c \<in> set (clients (run evs (init sl jl))) \<and> readyState (run evs (init sl jl)) c = 1 \<and>
               c \<noteq> ws
            then [PlayerMove (player_id d) p f (or_zero t)] else []))) \<and>
     (\<not> serializes sl (PlayerMove (player_id d) p f (or_zero t)) \<longrightarrow>
        sent (deliver (Message ws (Json data)) (run evs (init sl jl))) = sent (run evs (init sl jl)) \<and>
        console (deliver (Message ws (Json data)) (run evs (init sl jl))) =
          console (run evs (init sl jl)) @ [ErrorParsingMessage RangeError])"
proof -
  let ?s = "run evs (init sl jl)"
  have c: "consistent ?s" by (rule consistent_reached)
  from registered_record [OF c live ws] obtain d where
    d: "Map_get (players ?s) ws = Some d" and h: "handlers ?s ws = Some (player_id d)"
    by blast
  let ?note = "PlayerMove (player_id d) p f (or_zero t)"
  let ?s1 = "set_motion ws p f (or_zero t) ?s"
  let ?s' = "deliver (Message ws (Json data)) ?s"
  have step: "?s' = notify ?note (Some (player_id d)) ?s1"
    using ws h live on_message_position [OF ty p f t, of ws "player_id d" ?s]
    by (simp add: deliver_def)
  have lim: "stringify_limit ?s1 = sl"
    by (simp add: set_motion_other limits_reached)
  have dist: "distinct (clients ?s1)"
    using c by (simp add: consistent_def set_motion_other)
  have stored: "Map_get (players ?s') ws = Some (d\<lparr>position := p, forward := f, pitch := or_zero t\<rparr>)"
    unfolding step by (simp add: notify_other set_motion_get d)
  have all: "inbox c ?s' =
           inbox c ?s @
           (if serializes sl ?note \<and> c \<in> set (clients ?s) \<and> readyState ?s c = 1 \<and>
               map_option player_id (Map_get (players ?s) c) \<noteq> Some (player_id d)
            then [?note] else [])" for c
  proof (cases "c \<in> set (clients ?s)")
    case True
    from stored_record [OF c True] obtain d' where "Map_get (players ?s) c = Some d'" by blast
    then show ?thesis
      using True inbox_notify [OF dist, of c ?note "Some (player_id d)"]
      unfolding step lim
      by (simp add: recipient_set_motion set_motion_other recipient_def inbox_def)
  next
    case False
    then show ?thesis
      using inbox_notify [OF dist, of c ?note "Some (player_id d)"]
      unfolding step lim
      by (simp add: set_motion_other inbox_def)
  qed
  have self: "inbox ws ?s' = inbox ws ?s"
    unfolding all by (simp add: d)
  have uniq: "inbox c ?s' =
           inbox c ?s @
           (if serializes sl ?note \<and> c \<in> set (clients ?s) \<and> readyState ?s c = 1 \<and> c \<noteq> ws
            then [?note] else [])"
    if u: "distinct (map (\<lambda>e. player_id (snd e)) (players ?s))" for c
  proof (cases "c \<in> set (clients ?s) \<and> c \<noteq> ws")
    case True
    from stored_record [OF c] True obtain d' where d': "Map_get (players ?s) c = Some d'" by blast
    have m1: "(ws, d) \<in> set (players ?s)" using d by (simp add: Map_get_def map_of_SomeD)
    have m2: "(c, d') \<in> set (players ?s)" using d' by (simp add: Map_get_def map_of_SomeD)
    have "inj_on (\<lambda>e. player_id (snd e)) (set (players ?s))"
      using u by (simp add: distinct_map)
    then have "(c, d') = (ws, d)" if "player_id d' = player_id d"
      using inj_onD [of "\<lambda>e. player_id (snd e)" "set (players ?s)" "(c, d')" "(ws, d)"] m1 m2 that
      by simp
    with True have "player_id d' \<noteq> player_id d"
      by auto
    then show ?thesis using True unfolding all by (simp add: d')
  next
    case False
    then show ?thesis unfolding all by (auto simp: d)
  qed
  have lost: "sent ?s' = sent ?s \<and> console ?s' = console ?s @ [ErrorParsingMessage RangeError]"
    if "\<not> serializes sl ?note"
    unfolding step using that lim
    by (simp add: notify_def console_log_def set_motion_other)
  from d stored self all uniq lost show ?thesis by blast
qed

theorem position_fanout_witness:
  "0 \<in> set (clients (run demo_trace (init 2 2))) \<and> \<not> ended (run demo_trace (init 2 2)) \<and>
   inbox 0 (run (demo_trace @ [Message 0 (Json demo_position)]) (init 2 2)) =
     inbox 0 (run demo_trace (init 2 2)) \<and>
   inbox 1 (run (demo_trace @ [Message 0 (Json demo_position)]) (init 2 2)) =
     inbox 1 (run demo_trace (init 2 2)) @
     [PlayerMove ''00000000-0000-4000-8000-000000000000'' (JArr [JNum (SafeInt 1)])
        (JArr [JNum (SafeInt 2)]) (JNum (SafeInt 3))] \<and>
   inbox 2 (run (demo_trace @ [Message 0 (Json demo_position)]) (init 2 2)) =
     inbox 2 (run demo_trace (init 2 2)) @
     [PlayerMove ''00000000-0000-4000-8000-000000000000'' (JArr [JNum (SafeInt 1)])
        (JArr [JNum (SafeInt 2)]) (JNum (SafeInt 3))] \<and>
   inbox 1 (run (demo_trace @ [Message 0 (Json deep_position)]) (init 2 2)) =
     inbox 1 (run demo_trace (init 2 2)) \<and>
   map_option position (Map_get (players (run (demo_trace @ [Message 0 (Json deep_position)])
     (init 2 2))) 0) = Some deep"
proof -
  let ?s = "run demo_trace (init 2 2)"
  have in0: "0 \<in> set (clients ?s)"
    using demo_trace_state by simp
  have live: "\<not> ended ?s"
    using demo_trace_state by simp
  have props: "get_prop demo_position ''type'' = Inr (JStr ''position'')"
    "get_prop demo_position ''position'' = Inr (JArr [JNum (SafeInt 1)])"
    "get_prop demo_position ''forward'' = Inr (JArr [JNum (SafeInt 2)])"
    "get_prop demo_position ''pitch'' = Inr (JNum (SafeInt 3))"
    by (simp_all add: demo_position_def)
  have deeps: "get_prop deep_position ''type'' = Inr (JStr ''position'')"
    "get_prop deep_position ''position'' = Inr deep"
    "get_prop deep_position ''forward'' = Inr (JArr [JNum (SafeInt 2)])"
    "get_prop deep_position ''pitch'' = Inr (JNum (SafeInt 3))"
    by (simp_all add: deep_position_def)
  from position_fanout [OF in0 live props]
  obtain d where d: "Map_get (players ?s) 0 = Some d"
    and self: "inbox 0 (deliver (Message 0 (Json demo_position)) ?s) = inbox 0 ?s"
    and all: "\<And>c. inbox c (deliver (Message 0 (Json demo_position)) ?s) =
           inbox c ?s @
           (if serializes 2 (PlayerMove (player_id d) (JArr [JNum (SafeInt 1)]) (JArr [JNum (SafeInt 2)])
                    (or_zero (JNum (SafeInt 3)))) \<and>
               c \<in> set (clients ?s) \<and> readyState ?s c = 1 \<and>
               map_option player_id (Map_get (players ?s) c) \<noteq> Some (player_id d)
            then [PlayerMove (player_id d) (JArr [JNum (SafeInt 1)]) (JArr [JNum (SafeInt 2)])
                    (or_zero (JNum (SafeInt 3)))] else [])"
    by blast
  from position_fanout [OF in0 live deeps]
  obtain d' where d': "Map_get (players ?s) 0 = Some d'"
    and stored: "Map_get (players (deliver (Message 0 (Json deep_position)) ?s)) 0 =
       Some (d'\<lparr>position := deep, forward := JArr [JNum (SafeInt 2)], pitch := or_zero (JNum (SafeInt 3))\<rparr>)"
    and none: "\<And>c. inbox c (deliver (Message 0 (Json deep_position)) ?s) =
           inbox c ?s @
           (if serializes 2 (PlayerMove (player_id d') deep (JArr [JNum (SafeInt 2)])
                    (or_zero (JNum (SafeInt 3)))) \<and>
               c \<in> set (clients ?s) \<and> readyState ?s c = 1 \<and>
               map_option player_id (Map_get (players ?s) c) \<noteq> Some (player_id d')
            then [PlayerMove (player_id d') deep (JArr [JNum (SafeInt 2)])
                    (or_zero (JNum (SafeInt 3)))] else [])"
    by blast
  have pid: "player_id d = ''00000000-0000-4000-8000-000000000000''"
    using d demo_trace_players by simp
  have c1: "1 \<in> set (clients ?s) \<and> readyState ?s 1 = 1 \<and>
      map_option player_id (Map_get (players ?s) 1) \<noteq> Some (player_id d)"
    using demo_trace_state demo_trace_players by (auto simp: pid)
  have c2: "2 \<in> set (clients ?s) \<and> readyState ?s 2 = 1 \<and>
      map_option player_id (Map_get (players ?s) 2) \<noteq> Some (player_id d)"
    using demo_trace_state demo_trace_players by (auto simp: pid)
  have run: "run (demo_trace @ [Message 0 (Json demo_position)]) (init 2 2) =
      deliver (Message 0 (Json demo_position)) ?s"
    "run (demo_trace @ [Message 0 (Json deep_position)]) (init 2 2) =
      deliver (Message 0 (Json deep_position)) ?s"
    by (simp_all only: run_append run_Cons run_Nil)
  have ser: "serializes 2 (PlayerMove (player_id d) (JArr [JNum (SafeInt 1)]) (JArr [JNum (SafeInt 2)])
                    (or_zero (JNum (SafeInt 3))))"
    by (simp add: serializes_simps or_zero_def)
  have nser: "\<not> serializes 2 (PlayerMove (player_id d') deep (JArr [JNum (SafeInt 2)])
                    (or_zero (JNum (SafeInt 3))))"
    by (simp add: serializes_simps deep_def)
  have lost: "inbox 1 (deliver (Message 0 (Json deep_position)) ?s) = inbox 1 ?s"
    unfolding none [of 1] using nser by simp
  show ?thesis
    unfolding run self all [of 1] all [of 2] lost stored
    using in0 live c1 c2 ser by (simp add: pid or_zero_def)
qed

section \<open>Teardown\<close>

lemma stays_closed_step:
  assumes "consistent s" "ws < accepted s" "ws \<notin> set (clients s)"
  shows "ws < accepted (deliver ev s) \<and> ws \<notin> set (clients (deliver ev s))"
proof (cases "ended s")
  case True
  with assms show ?thesis by (simp add: deliver_ended)
next
  case False
  have "(accepted (emit ev s), set (clients (emit ev s))) = track ev (accepted s, set (clients s))"
    by (simp add: track_emit [OF assms(1) False])
  with assms(2,3) have "ws < accepted (emit ev s) \<and> ws \<notin> set (clients (emit ev s))"
    by (cases ev) auto
  with False show ?thesis by (simp add: deliver_live)
qed

lemma stays_closed:
  assumes "consistent s" "ws < accepted s" "ws \<notin> set (clients s)"
  shows "ws \<notin> set (clients (run evs s))"
  using assms
proof (induction evs arbitrary: s)
  case Nil
  then show ?case by (simp add: run_Nil)
next
  case (Cons ev evs)
  from stays_closed_step [OF Cons.prems]
  have "ws < accepted (deliver ev s)" "ws \<notin> set (clients (deliver ev s))" by simp_all
  with Cons.IH [OF consistent_deliver [OF Cons.prems(1)]] show ?case by (simp add: run_Cons)
qed

lemma deliver_Close_eq:
  assumes "\<not> ended s" "ws \<in> set (clients s)" "handlers s ws = Some pid"
  shows "deliver (Close ws) s =
     fanout (PlayerLeave pid) None
       (s\<lparr>readyState := (readyState s)(ws := 3), clients := removeAll ws (clients s),
          console := console s @ [PlayerDisconnected pid],
          players := Map_delete (players s) ws\<rparr>)"
  using assms by (simp add: deliver_def Let_def on_close_eq fanout_def recipient_fun)

lemma deliver_absent:
  assumes "ws \<notin> set (clients s)"
  shows "deliver (Message ws frm) s = s" "deliver (Error ws err) s = s" "deliver (Close ws) s = s"
  using assms by (simp_all add: deliver_def)

lemma close_inbox:
  assumes c: "consistent s" and live: "\<not> ended s" and ws: "ws \<in> set (clients s)"
    and h: "handlers s ws = Some pid"
  shows "inbox c' (deliver (Close ws) s) = inbox c' s @
           (if c' \<in> set (clients s) \<and> c' \<noteq> ws \<and> readyState s c' = 1
            then [PlayerLeave pid] else [])"
proof -
  let ?removed = "s\<lparr>readyState := (readyState s)(ws := 3), clients := removeAll ws (clients s),
                  console := console s @ [PlayerDisconnected pid],
                  players := Map_delete (players s) ws\<rparr>"
  have step: "deliver (Close ws) s = fanout (PlayerLeave pid) None ?removed"
    by (rule deliver_Close_eq [OF live ws h])
  have dist: "distinct (removeAll ws (clients s))"
    using c by (simp add: consistent_def distinct_removeAll)
  show ?thesis
  proof (cases "c' \<in> set (clients s) \<and> c' \<noteq> ws")
    case True
    from stored_record [OF c] True obtain d' where "Map_get (players s) c' = Some d'" by blast
    with True show ?thesis
      unfolding step fanout_def
      using inbox_fanout [OF distinct_filter [OF dist], of c' ?removed "PlayerLeave pid"
          "recipient ?removed None"]
      by (simp add: recipient_def Map_get_delete inbox_def)
  next
    case False
    then show ?thesis
      unfolding step fanout_def
      using inbox_fanout [OF distinct_filter [OF dist], of c' ?removed "PlayerLeave pid"
          "recipient ?removed None"]
      by (auto simp: inbox_def)
  qed
qed

text \<open>
  C4. When a registered connection \<open>ws\<close> of the running server closes, every remaining open
  connection receives exactly one \<^verbatim>\<open>playerLeave\<close> carrying the id of \<open>ws\<close>, and no other
  connection receives one; the record of \<open>ws\<close> is removed and is absent from \<open>players\<close> in
  every later state. A further \<^verbatim>\<open>close\<close> for \<open>ws\<close>, at any later time, changes nothing: the
  record is already removed, and no second notice is sent. A transport error sends
  nothing and removes nothing: the teardown is left to the \<^verbatim>\<open>close\<close> that follows, which
  sends the same notices, once.
\<close>

theorem close_teardown:
  assumes ws: "ws \<in> set (clients (run evs (init sl jl)))"
    and live: "\<not> ended (run evs (init sl jl))"
  shows "\<exists>d. Map_get (players (run evs (init sl jl))) ws = Some d \<and>
     (\<forall>c. inbox c (deliver (Close ws) (run evs (init sl jl))) =
           inbox c (run evs (init sl jl)) @
           (if c \<in> set (clients (run evs (init sl jl))) \<and> c \<noteq> ws \<and>
               readyState (run evs (init sl jl)) c = 1
            then [PlayerLeave (player_id d)] else [])) \<and>
     (\<forall>evs'. Map_get (players (run evs' (deliver (Close ws) (run evs (init sl jl))))) ws = None \<and>
             ws \<notin> set (clients (run evs' (deliver (Close ws) (run evs (init sl jl))))) \<and>
             deliver (Close ws) (run evs' (deliver (Close ws) (run evs (init sl jl)))) =
               run evs' (deliver (Close ws) (run evs (init sl jl)))) \<and>
     (\<forall>err. sent (deliver (Error ws err) (run evs (init sl jl))) = sent (run evs (init sl jl)) \<and>
            players (deliver (Error ws err) (run evs (init sl jl))) = players (run evs (init sl jl)) \<and>
            (\<forall>c. inbox c (deliver (Close ws) (deliver (Error ws err) (run evs (init sl jl)))) =
                  inbox c (run evs (init sl jl)) @
                  (if c \<in> set (clients (run evs (init sl jl))) \<and> c \<noteq> ws \<and>
                      readyState (run evs (init sl jl)) c = 1
                   then [PlayerLeave (player_id d)] else [])))"
proof -
  let ?s = "run evs (init sl jl)"
  have c: "consistent ?s" by (rule consistent_reached)
  from registered_record [OF c live ws] obtain d where
    d: "Map_get (players ?s) ws = Some d" and h: "handlers ?s ws = Some (player_id d)"
    by blast
  let ?removed = "?s\<lparr>readyState := (readyState ?s)(ws := 3), clients := removeAll ws (clients ?s),
                  console := console ?s @ [PlayerDisconnected (player_id d)],
                  players := Map_delete (players ?s) ws\<rparr>"
  let ?s' = "deliver (Close ws) ?s"
  have step: "?s' = fanout (PlayerLeave (player_id d)) None ?removed"
    by (rule deliver_Close_eq [OF live ws h])
  have c': "consistent ?s'" by (rule consistent_deliver [OF c])
  have dist: "distinct (removeAll ws (clients ?s))"
    using c by (simp add: consistent_def distinct_removeAll)
  have leave: "inbox c ?s' = inbox c ?s @
           (if c \<in> set (clients ?s) \<and> c \<noteq> ws \<and> readyState ?s c = 1
            then [PlayerLeave (player_id d)] else [])" for c
    by (rule close_inbox [OF c live ws h])
  have acc: "ws < accepted ?s'"
  proof -
    have "ws < accepted ?s" using c ws by (simp add: consistent_def)
    then show ?thesis unfolding step by (simp add: fanout_other)
  qed
  have gone: "ws \<notin> set (clients ?s')"
    unfolding step by (simp add: fanout_other)
  have later: "Map_get (players (run evs' ?s')) ws = None \<and> ws \<notin> set (clients (run evs' ?s')) \<and>
      deliver (Close ws) (run evs' ?s') = run evs' ?s'" for evs'
  proof -
    have n: "ws \<notin> set (clients (run evs' ?s'))"
      by (rule stays_closed [OF c' acc gone])
    have "consistent (run evs' ?s')" by (rule consistent_run [OF c'])
    then have "Map_get (players (run evs' ?s')) ws = None"
      using n by (rule unregistered_record)
    with n show ?thesis by (simp add: deliver_def)
  qed
  have err: "sent (deliver (Error ws e) ?s) = sent ?s \<and> players (deliver (Error ws e) ?s) = players ?s \<and>
      (\<forall>c. inbox c (deliver (Close ws) (deliver (Error ws e) ?s)) = inbox c ?s @
           (if c \<in> set (clients ?s) \<and> c \<noteq> ws \<and> readyState ?s c = 1
            then [PlayerLeave (player_id d)] else []))"
    for e
  proof -
    let ?logged = "console_log (WebSocketError (player_id d) e) ?s"
    have de: "deliver (Error ws e) ?s = ?logged"
      using live ws h by (simp add: deliver_def on_error_def)
    have same: "clients ?logged = clients ?s" "readyState ?logged = readyState ?s"
      "handlers ?logged = handlers ?s" "ended ?logged = ended ?s" "sent ?logged = sent ?s"
      "players ?logged = players ?s"
      by (simp_all add: console_log_def)
    have "inbox c (deliver (Close ws) ?logged) = inbox c ?logged @
           (if c \<in> set (clients ?logged) \<and> c \<noteq> ws \<and> readyState ?logged c = 1
            then [PlayerLeave (player_id d)] else [])" for c
      by (rule close_inbox [OF consistent_log [OF c]]) (simp_all add: same live ws h)
    then show ?thesis
      unfolding de by (simp add: same inbox_console)
  qed
  from d leave later err show ?thesis by blast
qed

theorem close_teardown_witness:
  "0 \<in> set (clients (run demo_trace (init 2 2))) \<and> \<not> ended (run demo_trace (init 2 2)) \<and>
   inbox 1 (run (demo_trace @ [Close 0]) (init 2 2)) =
     inbox 1 (run demo_trace (init 2 2)) @ [PlayerLeave ''00000000-0000-4000-8000-000000000000''] \<and>
   inbox 0 (run (demo_trace @ [Close 0]) (init 2 2)) = inbox 0 (run demo_trace (init 2 2)) \<and>
   Map_get (players (run (demo_trace @ [Close 0]) (init 2 2))) 0 = None \<and>
   inbox 1 (run (demo_trace @ [Close 0, Error 0 ''reset'', Close 0]) (init 2 2)) =
     inbox 1 (run demo_trace (init 2 2)) @ [PlayerLeave ''00000000-0000-4000-8000-000000000000''] \<and>
   inbox 1 (run (demo_trace @ [Error 0 ''reset'', Close 0]) (init 2 2)) =
     inbox 1 (run demo_trace (init 2 2)) @ [PlayerLeave ''00000000-0000-4000-8000-000000000000'']"
proof -
  let ?s = "run demo_trace (init 2 2)"
  have in0: "0 \<in> set (clients ?s)"
    using demo_trace_state by simp
  have live: "\<not> ended ?s"
    using demo_trace_state by simp
  from close_teardown [OF in0 live]
  obtain d where d: "Map_get (players ?s) 0 = Some d"
    and leave: "\<And>c. inbox c (deliver (Close 0) ?s) =
           inbox c ?s @
           (if c \<in> set (clients ?s) \<and> c \<noteq> 0 \<and> readyState ?s c = 1
            then [PlayerLeave (player_id d)] else [])"
    and later: "\<And>evs'. Map_get (players (run evs' (deliver (Close 0) ?s))) 0 = None \<and>
             0 \<notin> set (clients (run evs' (deliver (Close 0) ?s))) \<and>
             deliver (Close 0) (run evs' (deliver (Close 0) ?s)) = run evs' (deliver (Close 0) ?s)"
    and after: "\<And>err c. inbox c (deliver (Close 0) (deliver (Error 0 err) ?s)) =
           inbox c ?s @
           (if c \<in> set (clients ?s) \<and> c \<noteq> 0 \<and> readyState ?s c = 1
            then [PlayerLeave (player_id d)] else [])"
    by blast
  have pid: "player_id d = ''00000000-0000-4000-8000-000000000000''"
    using d demo_trace_players by simp
  have run: "run (demo_trace @ [Close 0]) (init 2 2) = deliver (Close 0) ?s"
    by (simp only: run_append run_Cons run_Nil)
  have c1: "1 \<in> set (clients ?s) \<and> readyState ?s 1 = 1"
    using demo_trace_state by simp
  have gone: "0 \<notin> set (clients (deliver (Close 0) ?s))"
    using later [of "[]"] by (simp add: run_Nil)
  have err: "deliver (Error 0 ''reset'') (deliver (Close 0) ?s) = deliver (Close 0) ?s"
    using gone by (rule deliver_absent(2))
  have again: "run (demo_trace @ [Close 0, Error 0 ''reset'', Close 0]) (init 2 2) =
      deliver (Close 0) ?s"
    using later [of "[]"]
    by (simp only: run_append run_Cons run_Nil err)
  have errclose: "run (demo_trace @ [Error 0 ''reset'', Close 0]) (init 2 2) =
      deliver (Close 0) (deliver (Error 0 ''reset'') ?s)"
    by (simp only: run_append run_Cons run_Nil)
  show ?thesis
    unfolding again run errclose leave [of 1] leave [of 0] after [of 1 "''reset''"]
    using in0 live c1 later [of "[]"] by (simp add: pid run_Nil)
qed

section \<open>Handshake\<close>

lemma sent_emit: "\<exists>new. sent (emit ev s) = sent s @ new"
proof (cases ev)
  case (Connection rnd)
  show ?thesis by (simp add: Connection Let_def uncaught_other on_connection_eq)
next
  case (Message ws frm)
  have "\<exists>new. sent (on_message ws pid frm s) = sent s @ new" for pid
    using on_message_cases [of ws pid frm s]
    by (auto simp: console_log_def notify_sent set_motion_other)
  then show ?thesis by (simp add: Message split: option.split)
next
  case (Closing ws)
  show ?thesis by (simp add: Closing)
next
  case (Close ws)
  show ?thesis by (simp add: Close Let_def on_close_eq split: option.split)
next
  case (Error ws err)
  show ?thesis by (simp add: Error on_error_def console_log_def split: option.split)
qed

lemma inbox_deliver: "prefix (inbox c s) (inbox c (deliver ev s))"
proof -
  from sent_emit [of ev s] obtain new where "sent (emit ev s) = sent s @ new" by blast
  then show ?thesis by (simp add: inbox_def deliver_def)
qed

lemma inbox_run: "prefix (inbox c s) (inbox c (run evs s))"
proof (induction evs arbitrary: s)
  case Nil
  show ?case by (simp add: run_Nil)
next
  case (Cons ev evs)
  have "prefix (inbox c s) (inbox c (deliver ev s))" by (rule inbox_deliver)
  also have "prefix (inbox c (deliver ev s)) (inbox c (run evs (deliver ev s)))" by (rule Cons.IH)
  finally show ?case by (simp add: run_Cons)
qed

lemma filter_fanout_none:
  "\<not> R c \<Longrightarrow> filter (\<lambda>e. fst e = c) (map (\<lambda>c'. (c', m)) (filter R cs)) = []"
  by (induction cs) auto

lemma on_connection_inbox:
  assumes "ws \<notin> set (map fst (players s))" and "filter (\<lambda>e. fst e = ws) (sent s) = []"
  shows "inbox ws (fst (on_connection ws rnd s)) =
     Init (player_id (new_playerData rnd)) (color (new_playerData rnd)) #
     map existing_player
       (takeWhile (\<lambda>e. serializes (stringify_limit s) (existing_player e)) (players s)) @
     (if list_all (\<lambda>e. serializes (stringify_limit s) (existing_player e)) (players s) \<and>
         worldChanges s \<noteq> [] \<and>
         serializes (stringify_limit s) (WorldState (snapshotAll (worldChanges s)))
      then [WorldState (snapshotAll (worldChanges s))] else [])"
proof -
  let ?pd = "new_playerData rnd"
  have pl: "Map_set (players s) ws ?pd = players s @ [(ws, ?pd)]"
    using assms(1) by (rule Map_set_fresh)
  have others: "filter (\<lambda>e. fst e \<noteq> ws) (players s) = players s"
    using assms(1) by (force simp: filter_id_conv)
  have nr: "filter (\<lambda>e. fst e = ws) (map (\<lambda>c. (c, m))
      (filter (recipient (s\<lparr>players := players s @ [(ws, ?pd)],
                 console := console s @ [PlayerConnected (player_id ?pd)]\<rparr>)
         (Some (player_id ?pd))) cs)) = []" for m :: message and cs
  proof (rule filter_fanout_none)
    have "Map_get (players s @ [(ws, ?pd)]) ws = Some ?pd"
      using Map_get_set [of "players s" ws ?pd] by (simp add: pl)
    then show "\<not> recipient (s\<lparr>players := players s @ [(ws, ?pd)],
                 console := console s @ [PlayerConnected (player_id ?pd)]\<rparr>)
         (Some (player_id ?pd)) ws"
      by (simp add: recipient_def)
  qed
  show ?thesis
    by (auto simp: inbox_def on_connection_eq Let_def pl others assms(2) nr comp_def)
qed

lemma on_connection_returns:
  assumes "ws \<notin> set (map fst (players s))"
  shows "(snd (on_connection ws rnd s) = None) =
     (list_all (\<lambda>e. serializes (stringify_limit s) (existing_player e)) (players s) \<and>
      (worldChanges s = [] \<or>
       serializes (stringify_limit s) (WorldState (snapshotAll (worldChanges s)))) \<and>
      1 \<le> stringify_limit s)"
proof -
  let ?pd = "new_playerData rnd"
  have pl: "Map_set (players s) ws ?pd = players s @ [(ws, ?pd)]"
    using assms(1) by (rule Map_set_fresh)
  have others: "filter (\<lambda>e. fst e \<noteq> ws) (players s) = players s"
    using assms(1) by (force simp: filter_id_conv)
  have joined: "serializes (stringify_limit s) (PlayerJoin (player_id ?pd) (color ?pd)
      (position ?pd) (forward ?pd) (pitch ?pd)) = (1 \<le> stringify_limit s)"
    by (auto simp: serializes_simps new_playerData_def Let_def)
  show ?thesis
    by (simp add: on_connection_eq Let_def pl others joined)
qed

text \<open>
  C2. The messages that a new connection of the running server has received when its
  connection listener is left are, in this order: one \<^verbatim>\<open>init\<close> with its id and colour;
  one \<^verbatim>\<open>playerJoin\<close> for each record registered before it (with that record's id, colour,
  position, forward and pitch), up to the first one that cannot be serialized; and,
  if all of them could be serialized, one \<^verbatim>\<open>worldState\<close> if \<open>worldChanges\<close> is not empty and
  can be serialized. The process has ended then exactly when one of these notices, or
  the notice of the new connection for the others, could not be serialized. So when
  every stored position, forward, pitch and block can be serialized, the connection
  has received \<^verbatim>\<open>init\<close>, a \<^verbatim>\<open>playerJoin\<close> for every earlier record, and \<^verbatim>\<open>worldState\<close> if and
  only if \<open>worldChanges\<close> is not empty; and when a stored block cannot, it has received no
  \<^verbatim>\<open>worldState\<close> although \<open>worldChanges\<close> is not empty. Whatever a connection receives
  later comes after these.
\<close>

theorem handshake_first:
  assumes live: "\<not> ended (run evs (init sl jl))"
  shows "inbox (accepted (run evs (init sl jl))) (deliver (Connection rnd) (run evs (init sl jl))) =
     Init (generateUUID rnd) (generateColor (\<lambda>i. rnd (31 + i))) #
     map (\<lambda>e. PlayerJoin (player_id (snd e)) (color (snd e)) (position (snd e))
                 (forward (snd e)) (pitch (snd e)))
       (takeWhile (\<lambda>e. serializes sl (PlayerJoin (player_id (snd e)) (color (snd e))
                          (position (snd e)) (forward (snd e)) (pitch (snd e))))
          (players (run evs (init sl jl)))) @
     (if list_all (\<lambda>e. serializes sl (PlayerJoin (player_id (snd e)) (color (snd e))
                          (position (snd e)) (forward (snd e)) (pitch (snd e))))
           (players (run evs (init sl jl))) \<and>
         worldChanges (run evs (init sl jl)) \<noteq> [] \<and>
         serializes sl (WorldState (snapshotAll (worldChanges (run evs (init sl jl)))))
      then [WorldState (snapshotAll (worldChanges (run evs (init sl jl))))] else []) \<and>
   ended (deliver (Connection rnd) (run evs (init sl jl))) =
     (\<not> (list_all (\<lambda>e. serializes sl (PlayerJoin (player_id (snd e)) (color (snd e))
                          (position (snd e)) (forward (snd e)) (pitch (snd e))))
           (players (run evs (init sl jl))) \<and>
         (worldChanges (run evs (init sl jl)) = [] \<or>
          serializes sl (WorldState (snapshotAll (worldChanges (run evs (init sl jl)))))) \<and>
         1 \<le> sl)) \<and>
   (\<forall>evs'. prefix (inbox (accepted (run evs (init sl jl))) (deliver (Connection rnd) (run evs (init sl jl))))
             (inbox (accepted (run evs (init sl jl)))
                (run evs' (deliver (Connection rnd) (run evs (init sl jl))))))"
proof -
  let ?s = "run evs (init sl jl)"
  let ?ws = "accepted ?s"
  let ?pd = "new_playerData rnd"
  let ?start = "?s\<lparr>accepted := Suc ?ws, clients := clients ?s @ [?ws],
              readyState := (readyState ?s)(?ws := 1)\<rparr>"
  let ?J = "\<lambda>e. PlayerJoin (player_id (snd e)) (color (snd e)) (position (snd e))
                 (forward (snd e)) (pitch (snd e))"
  let ?W = "WorldState (snapshotAll (worldChanges ?s))"
  let ?a = "list_all (\<lambda>e. serializes sl (?J e)) (players ?s)"
  have c: "consistent ?s" by (rule consistent_reached)
  have lim: "stringify_limit ?s = sl" by (rule limits_reached)
  have fresh: "?ws \<notin> set (map fst (players ?s))"
    using c by (auto simp: consistent_def)
  have pl: "Map_set (players ?s) ?ws ?pd = players ?s @ [(?ws, ?pd)]"
    using fresh by (rule Map_set_fresh)
  have others: "filter (\<lambda>e. fst e \<noteq> ?ws) (players ?s) = players ?s"
    using fresh by (force simp: filter_id_conv)
  have old: "filter (\<lambda>e. fst e = ?ws) (sent ?s) = []"
    using c by (auto simp: consistent_def filter_empty_conv)
  have same: "existing_player e = ?J e" if "e \<in> set (players ?s)" for e
    using c that by (simp add: consistent_def existing_player_def)
  have a: "list_all (\<lambda>e. serializes sl (existing_player e)) (players ?s) = ?a"
    using same by (simp add: list_all_iff)
  have tw: "map existing_player (takeWhile (\<lambda>e. serializes sl (existing_player e)) (players ?s)) =
      map ?J (takeWhile (\<lambda>e. serializes sl (?J e)) (players ?s))"
  proof -
    have "takeWhile (\<lambda>e. serializes sl (existing_player e)) (players ?s) =
        takeWhile (\<lambda>e. serializes sl (?J e)) (players ?s)"
      by (rule takeWhile_cong [OF refl]) (simp add: same)
    moreover have "map existing_player (takeWhile (\<lambda>e. serializes sl (?J e)) (players ?s)) =
        map ?J (takeWhile (\<lambda>e. serializes sl (?J e)) (players ?s))"
    proof (rule map_cong [OF refl])
      fix x
      assume "x \<in> set (takeWhile (\<lambda>e. serializes sl (?J e)) (players ?s))"
      then have "x \<in> set (players ?s)" by (rule set_takeWhileD [THEN conjunct1])
      then show "existing_player x = ?J x" by (rule same)
    qed
    ultimately show ?thesis by (simp only:)
  qed
  have dl: "deliver (Connection rnd) ?s = uncaught (on_connection ?ws rnd ?start)"
    using live by (simp add: deliver_def Let_def)
  have fresh': "?ws \<notin> set (map fst (players ?start))" using fresh by simp
  have old': "filter (\<lambda>e. fst e = ?ws) (sent ?start) = []" using old by simp
  have "inbox ?ws (deliver (Connection rnd) ?s) = inbox ?ws (fst (on_connection ?ws rnd ?start))"
    unfolding dl by (simp add: inbox_def uncaught_other)
  also have "\<dots> = Init (player_id ?pd) (color ?pd) #
     map existing_player
       (takeWhile (\<lambda>e. serializes (stringify_limit ?start) (existing_player e)) (players ?start)) @
     (if list_all (\<lambda>e. serializes (stringify_limit ?start) (existing_player e)) (players ?start) \<and>
         worldChanges ?start \<noteq> [] \<and>
         serializes (stringify_limit ?start) (WorldState (snapshotAll (worldChanges ?start)))
      then [WorldState (snapshotAll (worldChanges ?start))] else [])"
    by (rule on_connection_inbox [OF fresh' old'])
  also have "\<dots> = Init (generateUUID rnd) (generateColor (\<lambda>i. rnd (31 + i))) #
     map ?J (takeWhile (\<lambda>e. serializes sl (?J e)) (players ?s)) @
     (if ?a \<and> worldChanges ?s \<noteq> [] \<and> serializes sl ?W then [?W] else [])"
    by (simp add: lim a tw new_playerData_def Let_def)
  finally have first: "inbox ?ws (deliver (Connection rnd) ?s) =
     Init (generateUUID rnd) (generateColor (\<lambda>i. rnd (31 + i))) #
     map ?J (takeWhile (\<lambda>e. serializes sl (?J e)) (players ?s)) @
     (if ?a \<and> worldChanges ?s \<noteq> [] \<and> serializes sl ?W then [?W] else [])" .
  have "ended (deliver (Connection rnd) ?s) = (snd (on_connection ?ws rnd ?start) \<noteq> None)"
    unfolding dl using live by (simp add: uncaught_other on_connection_other)
  also have "\<dots> = (\<not> (?a \<and> (worldChanges ?s = [] \<or> serializes sl ?W) \<and> 1 \<le> sl))"
    unfolding on_connection_returns [OF fresh'] by (simp add: lim a)
  finally have fin: "ended (deliver (Connection rnd) ?s) =
      (\<not> (?a \<and> (worldChanges ?s = [] \<or> serializes sl ?W) \<and> 1 \<le> sl))" .
  have "prefix (inbox ?ws (deliver (Connection rnd) ?s))
          (inbox ?ws (run evs' (deliver (Connection rnd) ?s)))" for evs'
    by (rule inbox_run)
  with first fin show ?thesis by blast
qed

lemma key_1_2: "block_key lvl (JNum (SafeInt 1)) (JNum (SafeInt 2)) = Inr ''1_2''"
  by (simp add: block_key_def digits_of_nat.simps digit_char_def)

lemma deep_edit_state:
  "\<not> ended (run deep_edit (init 2 2)) \<and> accepted (run deep_edit (init 2 2)) = 1 \<and>
   worldChanges (run deep_edit (init 2 2)) = [(''1_2'', deep)] \<and>
   map (\<lambda>e. (fst e, player_id (snd e), position (snd e), forward (snd e), pitch (snd e)))
     (players (run deep_edit (init 2 2))) =
     [(0, ''00000000-0000-4000-8000-000000000000'',
       JArr [JNum (SafeInt 0), JNum (SafeInt 102), JNum (SafeInt 0)],
       JArr [JNum (SafeInt 0), JNum (SafeInt 0), JNum (SafeInt (- 1))], JNum (SafeInt 0))] \<and>
   map (\<lambda>e. color (snd e)) (players (run deep_edit (init 2 2))) = [generateColor (\<lambda>i. 0)]"
proof -
  let ?s1 = "deliver (Connection (\<lambda>i. 0)) (init 2 2)"
  have s1: "\<not> ended ?s1 \<and> clients ?s1 = [0] \<and> handlers ?s1 0 = Some ''00000000-0000-4000-8000-000000000000'' \<and>
      accepted ?s1 = 1 \<and> worldChanges ?s1 = [] \<and> join_limit ?s1 = 2 \<and> stringify_limit ?s1 = 2 \<and>
      players ?s1 = [(0, new_playerData (\<lambda>i. 0))]"
    by (simp add: deliver_def Let_def on_connection_eq init_def new_playerData_def uuid0
        serializes_simps console_log_def)
  have m: "deliver (Message 0 (blockChange (JNum (SafeInt 1)) (JNum (SafeInt 2)) deep)) ?s1 =
      notify (BlockChange (JNum (SafeInt 1)) (JNum (SafeInt 2)) deep)
        (Some ''00000000-0000-4000-8000-000000000000'')
        (?s1\<lparr>worldChanges := Map_set (worldChanges ?s1) ''1_2'' deep\<rparr>)"
    using s1 on_message_blockChange [of "JObj [(''type'', JStr ''blockChange''),
        (''face'', JNum (SafeInt 1)), (''layer'', JNum (SafeInt 2)), (''block'', deep)]"
        "JNum (SafeInt 1)" "JNum (SafeInt 2)" deep 0 "''00000000-0000-4000-8000-000000000000''" ?s1]
    by (simp add: deliver_def blockChange_def key_1_2)
  have r: "run deep_edit (init 2 2) =
      notify (BlockChange (JNum (SafeInt 1)) (JNum (SafeInt 2)) deep)
        (Some ''00000000-0000-4000-8000-000000000000'')
        (?s1\<lparr>worldChanges := Map_set (worldChanges ?s1) ''1_2'' deep\<rparr>)"
    unfolding deep_edit_def by (simp only: run_Cons run_Nil m)
  show ?thesis
    unfolding r using s1 by (simp add: notify_other new_playerData_def uuid0)
qed

theorem handshake_first_witness:
  "\<not> ended (run deep_edit (init 2 2)) \<and>
   worldChanges (run deep_edit (init 2 2)) = [(''1_2'', deep)] \<and>
   inbox 1 (deliver (Connection (\<lambda>i. 1 / 2)) (run deep_edit (init 2 2))) =
     [Init ''88888888-8888-4888-8888-888888888888'' (generateColor (\<lambda>i. 1 / 2)),
      PlayerJoin ''00000000-0000-4000-8000-000000000000'' (generateColor (\<lambda>i. 0))
        (JArr [JNum (SafeInt 0), JNum (SafeInt 102), JNum (SafeInt 0)])
        (JArr [JNum (SafeInt 0), JNum (SafeInt 0), JNum (SafeInt (- 1))]) (JNum (SafeInt 0))] \<and>
   ended (deliver (Connection (\<lambda>i. 1 / 2)) (run deep_edit (init 2 2)))"
proof -
  let ?s = "run deep_edit (init 2 2)"
  have live: "\<not> ended ?s" using deep_edit_state by simp
  have acc: "accepted ?s = 1" using deep_edit_state by simp
  have wc: "worldChanges ?s = [(''1_2'', deep)]" using deep_edit_state by simp
  obtain d where ps: "players ?s = [(0, d)]"
    and d: "player_id d = ''00000000-0000-4000-8000-000000000000''"
      "position d = JArr [JNum (SafeInt 0), JNum (SafeInt 102), JNum (SafeInt 0)]"
      "forward d = JArr [JNum (SafeInt 0), JNum (SafeInt 0), JNum (SafeInt (- 1))]"
      "pitch d = JNum (SafeInt 0)" "color d = generateColor (\<lambda>i. 0)"
    using deep_edit_state by (cases "players ?s") auto
  have nw: "\<not> serializes 2 (WorldState (snapshotAll [(''1_2'', deep)]))"
    by (simp add: serializes_simps snapshotAll_def change_of_def deep_def split: list.split)
  from handshake_first [OF live, of "\<lambda>i. 1 / 2"]
  show ?thesis
    unfolding acc wc ps using live nw
    by (simp add: d serializes_simps uuid8)
qed

section \<open>Messages that are ignored, and the missing validation\<close>

lemma block_key_undefined: "block_key lvl JUndefined JUndefined = Inr ''undefined_undefined''"
  by (simp add: block_key_def)

text \<open>
  C1, as amended. A frame that is not JSON, and a JSON value whose \<^verbatim>\<open>type\<close> cannot be read
  (\<^verbatim>\<open>null\<close>), is logged and otherwise ignored: only the console changes. A message whose
  \<^verbatim>\<open>type\<close> is neither \<^verbatim>\<open>blockChange\<close> nor \<^verbatim>\<open>position\<close> changes nothing. No message changes
  the set of open sockets or the state of a socket. A \<^verbatim>\<open>blockChange\<close> message is not
  validated: whatever its \<^verbatim>\<open>face\<close>, \<^verbatim>\<open>layer\<close> and \<^verbatim>\<open>block\<close> are, \<^verbatim>\<open>undefined\<close> where one is
  missing, if the key can be built from the texts of face and layer, the block is
  stored under that key (\<^verbatim>\<open>undefined_undefined\<close> when both are missing), and the notice is
  sent to the other connections if it can be serialized, which it can when the three
  are missing, and to nobody if it cannot.
\<close>

theorem ignored_messages:
  "on_message ws pid (NotJson x) s = s\<lparr>console := console s @ [ErrorParsingMessage SyntaxError]\<rparr> \<and>
   (get_prop data ''type'' = Inl e \<longrightarrow>
      on_message ws pid (Json data) s = s\<lparr>console := console s @ [ErrorParsingMessage e]\<rparr>) \<and>
   (get_prop data ''type'' = Inr ty \<and> ty \<noteq> JStr ''blockChange'' \<and> ty \<noteq> JStr ''position'' \<longrightarrow>
      on_message ws pid (Json data) s = s) \<and>
   clients (on_message ws pid frm s) = clients s \<and>
   readyState (on_message ws pid frm s) = readyState s \<and>
   ended (on_message ws pid frm s) = ended s \<and>
   (get_prop data ''type'' = Inr (JStr ''blockChange'') \<and> get_prop data ''face'' = Inr fa \<and>
    get_prop data ''layer'' = Inr la \<and> get_prop data ''block'' = Inr bl \<and>
    block_key (join_limit s) fa la = Inr key \<longrightarrow>
      worldChanges (on_message ws pid (Json data) s) = Map_set (worldChanges s) key bl \<and>
      sent (on_message ws pid (Json data) s) =
        sent s @ (if serializes (stringify_limit s) (BlockChange fa la bl)
                  then map (\<lambda>c. (c, BlockChange fa la bl))
                         (filter (recipient s (Some pid)) (clients s))
                  else [])) \<and>
   block_key (join_limit s) JUndefined JUndefined = Inr ''undefined_undefined'' \<and>
   serializes (stringify_limit s) (BlockChange JUndefined JUndefined JUndefined)"
proof -
  have a: "on_message ws pid (NotJson x) s = s\<lparr>console := console s @ [ErrorParsingMessage SyntaxError]\<rparr>"
    by (simp add: on_message_not_json console_log_def)
  have b: "on_message ws pid (Json data) s = s\<lparr>console := console s @ [ErrorParsingMessage e]\<rparr>"
    if "get_prop data ''type'' = Inl e"
    using that by (simp add: on_message_no_type console_log_def)
  have c: "on_message ws pid (Json data) s = s"
    if "get_prop data ''type'' = Inr ty" "ty \<noteq> JStr ''blockChange''" "ty \<noteq> JStr ''position''"
    using that by (rule on_message_other_type)
  have d: "clients (on_message ws pid frm s) = clients s"
    "readyState (on_message ws pid frm s) = readyState s"
    "ended (on_message ws pid frm s) = ended s"
    using on_message_frame [of ws pid frm s] by simp_all
  have e: "worldChanges (on_message ws pid (Json data) s) = Map_set (worldChanges s) key bl \<and>
      sent (on_message ws pid (Json data) s) =
        sent s @ (if serializes (stringify_limit s) (BlockChange fa la bl)
                  then map (\<lambda>c. (c, BlockChange fa la bl))
                         (filter (recipient s (Some pid)) (clients s))
                  else [])"
    if "get_prop data ''type'' = Inr (JStr ''blockChange'')" "get_prop data ''face'' = Inr fa"
      "get_prop data ''layer'' = Inr la" "get_prop data ''block'' = Inr bl"
      and k: "block_key (join_limit s) fa la = Inr key"
    using on_message_blockChange [OF that(1-4), of ws pid s]
    by (simp add: k notify_other notify_sent recipient_fun)
  have f: "serializes (stringify_limit s) (BlockChange JUndefined JUndefined JUndefined)"
    by (simp add: serializes_simps)
  from a b c d e f block_key_undefined show ?thesis by blast
qed

theorem ignored_messages_witness:
  "on_message 0 ''a'' (NotJson ''{'') demo_server =
     demo_server\<lparr>console := [ErrorParsingMessage SyntaxError]\<rparr> \<and>
   on_message 0 ''a'' (Json JNull) demo_server =
     demo_server\<lparr>console := [ErrorParsingMessage TypeError]\<rparr> \<and>
   on_message 0 ''a'' (Json (JObj [(''type'', JStr ''chat'')])) demo_server = demo_server \<and>
   worldChanges (on_message 0 ''a'' (Json (JObj [(''type'', JStr ''blockChange'')])) demo_server) =
     [(''undefined_undefined'', JUndefined)]"
  using ignored_messages [of 0 "''a''" "''{''" demo_server JNull TypeError "JStr ''chat''" "NotJson ''{''"
      JUndefined JUndefined JUndefined "''undefined_undefined''"]
    ignored_messages [of 0 "''a''" "''{''" demo_server "JObj [(''type'', JStr ''chat'')]" TypeError
      "JStr ''chat''" "NotJson ''{''" JUndefined JUndefined JUndefined "''undefined_undefined''"]
    ignored_messages [of 0 "''a''" "''{''" demo_server "JObj [(''type'', JStr ''blockChange'')]" TypeError
      "JStr ''chat''" "NotJson ''{''" JUndefined JUndefined JUndefined "''undefined_undefined''"]
  by (simp add: demo_server_def)

text \<open>
  A \<^verbatim>\<open>blockChange\<close> message without \<^verbatim>\<open>face\<close>, \<^verbatim>\<open>layer\<close> and \<^verbatim>\<open>block\<close>, sent by connection 0 of
  the example server: the store gets an entry, and connection 1 gets a notice.
\<close>

theorem blockChange_unvalidated_counterexample:
  "worldChanges demo_server = [] \<and>
   worldChanges (on_message 0 ''a'' (Json (JObj [(''type'', JStr ''blockChange'')])) demo_server) =
     [(''undefined_undefined'', JUndefined)] \<and>
   inbox 1 demo_server = [] \<and>
   inbox 1 (on_message 0 ''a'' (Json (JObj [(''type'', JStr ''blockChange'')])) demo_server) =
     [BlockChange JUndefined JUndefined JUndefined]"
proof -
  have "on_message 0 ''a'' (Json (JObj [(''type'', JStr ''blockChange'')])) demo_server =
      notify (BlockChange JUndefined JUndefined JUndefined) (Some ''a'')
        (demo_server\<lparr>worldChanges := Map_set (worldChanges demo_server) ''undefined_undefined'' JUndefined\<rparr>)"
    using on_message_blockChange [of "JObj [(''type'', JStr ''blockChange'')]" JUndefined JUndefined
        JUndefined 0 "''a''" demo_server]
    by (simp add: block_key_undefined)
  then show ?thesis
    by (simp add: notify_def fanout_def serializes_simps recipient_fun demo_server_def
        demo_player_def Map_get_def inbox_def)
qed

section \<open>Integers as text\<close>

lemma digit_val_char: "d < 10 \<Longrightarrow> digit_val (digit_char d) = d"
proof -
  assume "d < 10"
  then consider "d = 0" | "d = 1" | "d = 2" | "d = 3" | "d = 4" | "d = 5" | "d = 6" | "d = 7"
    | "d = 8" | "d = 9"
    by force
  then show ?thesis by cases (simp_all add: digit_val_def digit_char_def)
qed

lemma is_digit_char: "d < 10 \<Longrightarrow> is_digit (digit_char d)"
proof -
  assume "d < 10"
  then consider "d = 0" | "d = 1" | "d = 2" | "d = 3" | "d = 4" | "d = 5" | "d = 6" | "d = 7"
    | "d = 8" | "d = 9"
    by force
  then show ?thesis by cases (simp_all add: is_digit_def digit_char_def)
qed

lemma digits_all: "list_all is_digit (digits_of_nat n)"
proof (induction n rule: digits_of_nat.induct)
  case (1 n)
  show ?case
  proof (cases "n < 10")
    case True
    then show ?thesis by (subst digits_of_nat.simps) (simp add: is_digit_char)
  next
    case False
    with 1 show ?thesis by (subst digits_of_nat.simps) (simp add: is_digit_char)
  qed
qed

lemma digits_nonempty: "digits_of_nat n \<noteq> []"
  by (subst digits_of_nat.simps) simp

lemma nat_of_digits_snoc: "nat_of_digits (cs @ [c]) = 10 * nat_of_digits cs + digit_val c"
  by (simp add: nat_of_digits_def)

lemma nat_of_digits_of_nat: "nat_of_digits (digits_of_nat n) = n"
proof (induction n rule: digits_of_nat.induct)
  case (1 n)
  show ?case
  proof (cases "n < 10")
    case True
    then show ?thesis
      by (subst digits_of_nat.simps) (simp add: nat_of_digits_def digit_val_char)
  next
    case False
    with 1 have "nat_of_digits (digits_of_nat (n div 10)) = n div 10" by simp
    with False show ?thesis
      by (subst digits_of_nat.simps) (simp add: nat_of_digits_snoc digit_val_char)
  qed
qed

lemma is_digit_not_sign: "is_digit c \<Longrightarrow> c \<noteq> CHR ''-'' \<and> c \<noteq> CHR ''+'' \<and> c \<noteq> CHR ''_''"
  by (auto simp: is_digit_def)

lemma digits_hd: "is_digit (hd (digits_of_nat n))"
  using digits_all [of n] digits_nonempty [of n] by (cases "digits_of_nat n") simp_all

lemma digits_no_sep: "CHR ''_'' \<notin> set (digits_of_nat n)"
  using digits_all [of n] is_digit_not_sign by (auto simp: list_all_iff)

lemma Number_toString_no_sep: "CHR ''_'' \<notin> set (Number_toString (SafeInt n))"
  by (simp add: digits_no_sep)

lemma Number_of_toString:
  assumes "exact_int n"
  shows "Number (Number_toString (SafeInt n)) = Num n"
proof (cases "n < 0")
  case True
  have "nat (- n) \<le> 2 ^ 53" using assms True by (simp add: exact_int_def)
  then show ?thesis
    using True by (simp add: Number_def digits_nonempty digits_all nat_of_digits_of_nat)
next
  case False
  have le: "nat n \<le> 2 ^ 53" using assms False by (simp add: exact_int_def)
  have "hd (digits_of_nat (nat n)) \<noteq> CHR ''-'' \<and> hd (digits_of_nat (nat n)) \<noteq> CHR ''+''"
    using digits_hd [of "nat n"] is_digit_not_sign by blast
  then show ?thesis
    using False le by (simp add: Number_def digits_nonempty digits_all nat_of_digits_of_nat)
qed

lemma split_no_sep: "sep \<notin> set cs \<Longrightarrow> split sep cs = [cs]"
  by (induction cs) auto

lemma split_at_sep: "sep \<notin> set a \<Longrightarrow> split sep (a @ sep # b) = a # split sep b"
  by (induction a) auto

lemma block_key_integers:
  "block_key lvl (JNum (SafeInt f)) (JNum (SafeInt l)) =
     Inr (Number_toString (SafeInt f) @ ''_'' @ Number_toString (SafeInt l))"
  by (simp add: block_key_def)

lemma change_of_integers:
  assumes "exact_int f" "exact_int l"
  shows "change_of (Number_toString (SafeInt f) @ ''_'' @ Number_toString (SafeInt l), v) =
           \<lparr>face = Num f, layer = Num l, block = v\<rparr>"
proof -
  have "split (CHR ''_'') (Number_toString (SafeInt f) @ CHR ''_'' # Number_toString (SafeInt l)) =
      [Number_toString (SafeInt f), Number_toString (SafeInt l)]"
    using split_at_sep [OF Number_toString_no_sep, of f "Number_toString (SafeInt l)"]
      split_no_sep [OF Number_toString_no_sep, of l]
    by simp
  then show ?thesis
    using Number_of_toString [OF assms(1)] Number_of_toString [OF assms(2)]
    by (simp add: change_of_def)
qed

section \<open>The world delta store\<close>

lemma integer_key_of:
  assumes "exact_int f" "exact_int l"
  shows "integer_key (Number_toString (SafeInt f) @ ''_'' @ Number_toString (SafeInt l))"
proof -
  have "split (CHR ''_'') (Number_toString (SafeInt f) @ CHR ''_'' # Number_toString (SafeInt l)) =
      [Number_toString (SafeInt f), Number_toString (SafeInt l)]"
    using split_at_sep [OF Number_toString_no_sep, of f "Number_toString (SafeInt l)"]
      split_no_sep [OF Number_toString_no_sep, of l]
    by simp
  then show ?thesis
    using Number_of_toString [OF assms(1)] Number_of_toString [OF assms(2)]
    by (simp add: integer_key_def)
qed

lemma integer_key_decoded:
  assumes "integer_key k" "face (change_of (k, v)) = Num f" "layer (change_of (k, v)) = Num l"
  shows "k = Number_toString (SafeInt f) @ ''_'' @ Number_toString (SafeInt l)"
  using assms
  by (auto simp: integer_key_def change_of_def split: list.splits coord.splits)

lemma filter_length_mono:
  "(\<And>x. x \<in> set xs \<Longrightarrow> P x \<Longrightarrow> Q x) \<Longrightarrow> length (filter P xs) \<le> length (filter Q xs)"
  by (induction xs) auto

lemma no_key_filter: "k \<notin> set (map fst m) \<Longrightarrow> filter (\<lambda>e. fst e = k) m = []"
  by (induction m) auto

lemma one_per_key: "distinct (map fst m) \<Longrightarrow> length (filter (\<lambda>e. fst e = k) m) \<le> 1"
proof (induction m)
  case Nil
  show ?case by simp
next
  case (Cons e m)
  show ?case
  proof (cases "fst e = k")
    case True
    with Cons.prems have "filter (\<lambda>e. fst e = k) m = []"
      by (simp add: no_key_filter)
    with True show ?thesis by simp
  next
    case False
    with Cons show ?thesis by simp
  qed
qed

lemma one_per_coordinate:
  assumes "distinct (map fst wc)" "list_all (\<lambda>e. integer_key (fst e)) wc"
  shows "length (filter (\<lambda>c. face c = Num f \<and> layer c = Num l) (snapshotAll wc)) \<le> 1"
proof -
  let ?k = "Number_toString (SafeInt f) @ ''_'' @ Number_toString (SafeInt l)"
  have "length (filter (\<lambda>c. face c = Num f \<and> layer c = Num l) (snapshotAll wc)) =
      length (filter (\<lambda>e. face (change_of e) = Num f \<and> layer (change_of e) = Num l) wc)"
    by (simp add: snapshotAll_def filter_map comp_def)
  also have "\<dots> \<le> length (filter (\<lambda>e. fst e = ?k) wc)"
  proof (rule filter_length_mono)
    fix e
    assume "e \<in> set wc" and dec: "face (change_of e) = Num f \<and> layer (change_of e) = Num l"
    with assms(2) have "integer_key (fst e)" by (simp add: list_all_iff)
    with dec show "fst e = ?k"
      using integer_key_decoded [of "fst e" "snd e" f l] by simp
  qed
  also have "\<dots> \<le> 1" by (rule one_per_key [OF assms(1)])
  finally show ?thesis .
qed

lemma Map_set_twice: "Map_set (Map_set m k v) k v' = Map_set m k v'"
  by (induction m) auto

lemma Map_set_filter:
  assumes "distinct (map fst m)"
  shows "filter (\<lambda>e. fst e = k) (Map_set m k v) = [(k, v)]"
  using assms
proof (induction m)
  case Nil
  show ?case by simp
next
  case (Cons e m)
  show ?case
  proof (cases "fst e = k")
    case True
    with Cons.prems have "filter (\<lambda>e. fst e = k) m = []"
      by (simp add: no_key_filter)
    with True show ?thesis by simp
  next
    case False
    with Cons show ?thesis by simp
  qed
qed

lemma Map_set_all:
  "list_all P m \<Longrightarrow> P (k, v) \<Longrightarrow> list_all P (Map_set m k v)"
  by (induction m) auto

lemma on_message_world:
  "worldChanges (on_message ws pid frm s) = worldChanges s \<or>
   (\<exists>data fa la bl key. frm = Json data \<and> get_prop data ''type'' = Inr (JStr ''blockChange'') \<and>
      get_prop data ''face'' = Inr fa \<and> get_prop data ''layer'' = Inr la \<and>
      block_key (join_limit s) fa la = Inr key \<and>
      worldChanges (on_message ws pid frm s) = Map_set (worldChanges s) key bl)"
proof (cases frm)
  case (NotJson x)
  then show ?thesis by (simp add: on_message_not_json console_log_def)
next
  case (Json data)
  show ?thesis
  proof (cases "get_prop data ''type''")
    case (Inl e)
    then show ?thesis by (simp add: Json on_message_no_type console_log_def)
  next
    case (Inr ty)
    from get_prop_total [OF Inr] obtain fa la bl p f t where
      props: "get_prop data ''face'' = Inr fa" "get_prop data ''layer'' = Inr la"
        "get_prop data ''block'' = Inr bl" "get_prop data ''position'' = Inr p"
        "get_prop data ''forward'' = Inr f" "get_prop data ''pitch'' = Inr t"
      by metis
    consider "ty = JStr ''blockChange''" | "ty = JStr ''position''"
      | "ty \<noteq> JStr ''blockChange''" "ty \<noteq> JStr ''position''"
      by blast
    then show ?thesis
    proof cases
      case 1
      show ?thesis
      proof (cases "block_key (join_limit s) fa la")
        case (Inl e)
        then have "worldChanges (on_message ws pid frm s) = worldChanges s"
          using on_message_blockChange [of data fa la bl ws pid s] \<open>get_prop data ''type'' = Inr ty\<close>
            1 props
          by (simp add: Json console_log_def)
        then show ?thesis by blast
      next
        case (Inr key)
        then have "worldChanges (on_message ws pid frm s) = Map_set (worldChanges s) key bl"
          using on_message_blockChange [of data fa la bl ws pid s] \<open>get_prop data ''type'' = Inr ty\<close>
            1 props
          by (simp add: Json notify_other)
        with Inr 1 props \<open>get_prop data ''type'' = Inr ty\<close> Json show ?thesis by blast
      qed
    next
      case 2
      have "worldChanges (on_message ws pid frm s) = worldChanges s"
        using on_message_position [of data p f t ws pid s] Inr 2 props
        by (simp add: Json notify_other set_motion_other)
      then show ?thesis by blast
    next
      case 3
      then have "on_message ws pid frm s = s"
        using on_message_other_type [OF Inr] by (simp add: Json)
      then show ?thesis by simp
    qed
  qed
qed

lemma emit_world:
  "worldChanges (emit ev s) = worldChanges s \<or>
   (\<exists>ws data fa la bl key. ev = Message ws (Json data) \<and>
      get_prop data ''type'' = Inr (JStr ''blockChange'') \<and>
      get_prop data ''face'' = Inr fa \<and> get_prop data ''layer'' = Inr la \<and>
      block_key (join_limit s) fa la = Inr key \<and>
      worldChanges (emit ev s) = Map_set (worldChanges s) key bl)"
proof (cases ev)
  case (Connection rnd)
  show ?thesis by (simp add: Connection Let_def uncaught_other on_connection_other)
next
  case (Message ws frm)
  show ?thesis
  proof (cases "ws \<in> set (clients s) \<and> handlers s ws \<noteq> None")
    case True
    then obtain pid where "handlers s ws = Some pid" by auto
    with True have "emit ev s = on_message ws pid frm s" by (simp add: Message)
    with on_message_world [of ws pid frm s] Message show ?thesis by auto
  next
    case False
    then have "emit ev s = s" by (auto simp: Message)
    then show ?thesis by simp
  qed
next
  case (Closing ws)
  show ?thesis by (simp add: Closing)
next
  case (Close ws)
  show ?thesis by (simp add: Close Let_def on_close_eq split: option.split)
next
  case (Error ws err)
  show ?thesis by (simp add: Error on_error_def console_log_def split: option.split)
qed

lemma deliver_world:
  "worldChanges (deliver ev s) = worldChanges s \<or>
   (\<exists>ws data fa la bl key. ev = Message ws (Json data) \<and>
      get_prop data ''type'' = Inr (JStr ''blockChange'') \<and>
      get_prop data ''face'' = Inr fa \<and> get_prop data ''layer'' = Inr la \<and>
      block_key (join_limit s) fa la = Inr key \<and>
      worldChanges (deliver ev s) = Map_set (worldChanges s) key bl)"
proof (cases "ended s")
  case True
  then show ?thesis by (simp add: deliver_ended)
next
  case False
  then have "deliver ev s = emit ev s" by (rule deliver_live)
  then show ?thesis using emit_world [of ev s] by simp
qed

lemma keys_kept_step: "fst ` set (worldChanges s) \<subseteq> fst ` set (worldChanges (deliver ev s))"
proof -
  have grow: "fst ` set m \<subseteq> fst ` set (Map_set m k v)" for m :: "(string \<times> jsval) list" and k v
    using Map_set_keys [of m k v] by (metis set_map set_append subset_refl sup_ge1)
  from deliver_world [of ev s]
  consider "worldChanges (deliver ev s) = worldChanges s"
    | key bl where "worldChanges (deliver ev s) = Map_set (worldChanges s) key bl"
    by blast
  then show ?thesis
  proof cases
    case 1
    then show ?thesis by simp
  next
    case 2
    then show ?thesis by (simp only: grow)
  qed
qed

lemma keys_kept: "fst ` set (worldChanges s) \<subseteq> fst ` set (worldChanges (run evs s))"
proof (induction evs arbitrary: s)
  case Nil
  show ?case by (simp add: run_Nil)
next
  case (Cons ev evs)
  have "fst ` set (worldChanges s) \<subseteq> fst ` set (worldChanges (deliver ev s))"
    by (rule keys_kept_step)
  also have "\<dots> \<subseteq> fst ` set (worldChanges (run evs (deliver ev s)))" by (rule Cons.IH)
  finally show ?case by (simp add: run_Cons)
qed

lemma integer_value_cases: "integer_value v \<Longrightarrow> \<exists>n. v = JNum (SafeInt n) \<and> exact_int n"
  by (cases v rule: integer_value.cases) simp_all

lemma integer_keys_step:
  assumes "list_all (\<lambda>e. integer_key (fst e)) (worldChanges s)" "integer_coords ev"
  shows "list_all (\<lambda>e. integer_key (fst e)) (worldChanges (deliver ev s))"
proof -
  from deliver_world [of ev s]
  consider "worldChanges (deliver ev s) = worldChanges s"
    | ws data fa la bl key where "ev = Message ws (Json data)"
      "get_prop data ''type'' = Inr (JStr ''blockChange'')"
      "get_prop data ''face'' = Inr fa" "get_prop data ''layer'' = Inr la"
      "block_key (join_limit s) fa la = Inr key"
      "worldChanges (deliver ev s) = Map_set (worldChanges s) key bl"
    by blast
  then show ?thesis
  proof cases
    case 1
    with assms(1) show ?thesis by simp
  next
    case 2
    with assms(2) have "integer_value fa" "integer_value la" by simp_all
    then obtain f l where fl: "fa = JNum (SafeInt f)" "exact_int f" "la = JNum (SafeInt l)" "exact_int l"
      using integer_value_cases by blast
    with 2 have "key = Number_toString (SafeInt f) @ ''_'' @ Number_toString (SafeInt l)"
      by (simp add: block_key_integers)
    with integer_key_of [OF fl(2) fl(4)] have "integer_key key" by simp
    with assms(1) 2 show ?thesis by (simp add: Map_set_all)
  qed
qed

lemma integer_keys_run:
  assumes "list_all (\<lambda>e. integer_key (fst e)) (worldChanges s)" "\<forall>ev \<in> set evs. integer_coords ev"
  shows "list_all (\<lambda>e. integer_key (fst e)) (worldChanges (run evs s))"
  using assms
proof (induction evs arbitrary: s)
  case Nil
  then show ?case by (simp add: run_Nil)
next
  case (Cons ev evs)
  from Cons.prems have "list_all (\<lambda>e. integer_key (fst e)) (worldChanges (deliver ev s))"
    by (simp add: integer_keys_step)
  with Cons.IH [of "deliver ev s"] Cons.prems show ?case by (simp add: run_Cons)
qed

lemma on_message_blockChange_frame:
  "block_key (join_limit s) fa la = Inr key \<Longrightarrow>
   on_message ws pid (blockChange fa la bl) s =
     notify (BlockChange fa la bl) (Some pid)
       (s\<lparr>worldChanges := Map_set (worldChanges s) key bl\<rparr>)"
  using on_message_blockChange [of "JObj [(''type'', JStr ''blockChange''), (''face'', fa),
      (''layer'', la), (''block'', bl)]" fa la bl ws pid s]
  by (simp add: blockChange_def)

lemma world_after_blockChange:
  "block_key (join_limit s) fa la = Inr key \<Longrightarrow>
   worldChanges (on_message ws pid (blockChange fa la bl) s) = Map_set (worldChanges s) key bl"
  by (simp add: on_message_blockChange_frame notify_other)

lemma first_connection:
  "\<not> ended (deliver (Connection (\<lambda>i. 0)) (init 2 2)) \<and>
   clients (deliver (Connection (\<lambda>i. 0)) (init 2 2)) = [0] \<and>
   handlers (deliver (Connection (\<lambda>i. 0)) (init 2 2)) 0 = Some ''00000000-0000-4000-8000-000000000000'' \<and>
   worldChanges (deliver (Connection (\<lambda>i. 0)) (init 2 2)) = [] \<and>
   join_limit (deliver (Connection (\<lambda>i. 0)) (init 2 2)) = 2"
  by (simp add: deliver_def Let_def on_connection_eq init_def new_playerData_def uuid0
      serializes_simps console_log_def)

lemma deliver_blockChange:
  assumes "\<not> ended s \<and> clients s = [0] \<and> handlers s 0 = Some pid \<and> worldChanges s = wc \<and>
      join_limit s = lvl"
    and "block_key lvl fa la = Inr key"
  shows "\<not> ended (deliver (Message 0 (blockChange fa la bl)) s) \<and>
     clients (deliver (Message 0 (blockChange fa la bl)) s) = [0] \<and>
     handlers (deliver (Message 0 (blockChange fa la bl)) s) 0 = Some pid \<and>
     worldChanges (deliver (Message 0 (blockChange fa la bl)) s) = Map_set wc key bl \<and>
     join_limit (deliver (Message 0 (blockChange fa la bl)) s) = lvl"
proof -
  have d: "deliver (Message 0 (blockChange fa la bl)) s = on_message 0 pid (blockChange fa la bl) s"
    using assms(1) by (simp add: deliver_def)
  have k: "block_key (join_limit s) fa la = Inr key" using assms by simp
  show ?thesis
    unfolding d using assms(1) on_message_frame [of 0 pid "blockChange fa la bl" s]
    by (simp add: world_after_blockChange [OF k])
qed

text \<open>
  C5, as amended. After every sequence of events, \<open>worldChanges\<close> has every key once, and a
  \<^verbatim>\<open>blockChange\<close> message for a key that is present replaces its value and adds no entry.
  When the \<^verbatim>\<open>blockChange\<close> messages of the sequence carry integer \<^verbatim>\<open>face\<close> and \<^verbatim>\<open>layer\<close>, the
  replayed snapshot has at most one entry for each pair \<open>(face, layer)\<close>; in particular,
  after \<^verbatim>\<open>blockChange\<close> \<open>(2, 5, stone)\<close> and then \<^verbatim>\<open>blockChange\<close> \<open>(2, 5, dirt)\<close> it has exactly one
  entry for \<open>(2, 5)\<close>, with the value \<open>dirt\<close>.
\<close>

theorem one_entry_per_coordinate:
  "distinct (map fst (worldChanges (run evs (init sl jl)))) \<and>
   (\<forall>fa la bl key. block_key jl fa la = Inr key \<longrightarrow>
      Map_get (worldChanges (on_message ws pid (blockChange fa la bl) (run evs (init sl jl)))) key = Some bl \<and>
      map fst (worldChanges (on_message ws pid (blockChange fa la bl) (run evs (init sl jl)))) =
        (if key \<in> set (map fst (worldChanges (run evs (init sl jl))))
         then map fst (worldChanges (run evs (init sl jl)))
         else map fst (worldChanges (run evs (init sl jl))) @ [key])) \<and>
   (list_all integer_coords evs \<longrightarrow>
      (\<forall>f l. length (filter (\<lambda>c. face c = Num f \<and> layer c = Num l)
                       (snapshotAll (worldChanges (run evs (init sl jl))))) \<le> 1) \<and>
      filter (\<lambda>c. face c = Num 2 \<and> layer c = Num 5)
        (snapshotAll (worldChanges
           (on_message ws' pid' (blockChange (JNum (SafeInt 2)) (JNum (SafeInt 5)) (JStr ''dirt''))
             (on_message ws pid (blockChange (JNum (SafeInt 2)) (JNum (SafeInt 5)) (JStr ''stone''))
                (run evs (init sl jl)))))) =
        [\<lparr>face = Num 2, layer = Num 5, block = JStr ''dirt''\<rparr>])"
proof -
  let ?wc = "worldChanges (run evs (init sl jl))"
  let ?k = "Number_toString (SafeInt 2) @ ''_'' @ Number_toString (SafeInt 5)"
  let ?wc' = "Map_set ?wc ?k (JStr ''dirt'')"
  have ex: "exact_int 2" "exact_int 5" by (simp_all add: exact_int_def)
  have d: "distinct (map fst ?wc)"
    using consistent_reached [of evs sl jl] by (simp add: consistent_def)
  have replaces: "Map_get (worldChanges (on_message ws pid (blockChange fa la bl) (run evs (init sl jl)))) key = Some bl \<and>
        map fst (worldChanges (on_message ws pid (blockChange fa la bl) (run evs (init sl jl)))) =
          (if key \<in> set (map fst ?wc) then map fst ?wc else map fst ?wc @ [key])"
    if "block_key jl fa la = Inr key" for fa la bl key
  proof -
    from that have "block_key (join_limit (run evs (init sl jl))) fa la = Inr key"
      by (simp add: limits_reached)
    then show ?thesis
      by (simp add: world_after_blockChange Map_get_set Map_set_keys)
  qed
  have twice: "worldChanges
          (on_message ws' pid' (blockChange (JNum (SafeInt 2)) (JNum (SafeInt 5)) (JStr ''dirt''))
            (on_message ws pid (blockChange (JNum (SafeInt 2)) (JNum (SafeInt 5)) (JStr ''stone''))
               (run evs (init sl jl)))) = ?wc'"
    by (simp only: world_after_blockChange [OF block_key_integers] Map_set_twice)
  have typed: "(\<forall>f l. length (filter (\<lambda>c. face c = Num f \<and> layer c = Num l) (snapshotAll ?wc)) \<le> 1) \<and>
      filter (\<lambda>c. face c = Num 2 \<and> layer c = Num 5) (snapshotAll ?wc') =
        [\<lparr>face = Num 2, layer = Num 5, block = JStr ''dirt''\<rparr>]"
    if int: "list_all integer_coords evs"
  proof -
    have ik: "list_all (\<lambda>e. integer_key (fst e)) ?wc"
      using int by (intro integer_keys_run) (simp_all add: init_def list_all_iff)
    have one: "length (filter (\<lambda>c. face c = Num f \<and> layer c = Num l) (snapshotAll ?wc)) \<le> 1" for f l
      by (rule one_per_coordinate [OF d ik])
    have ik': "list_all (\<lambda>e. integer_key (fst e)) ?wc'"
      using ik integer_key_of [OF ex] by (intro Map_set_all) simp_all
    have same: "(face (change_of e) = Num 2 \<and> layer (change_of e) = Num 5) = (fst e = ?k)"
      if "e \<in> set ?wc'" for e
    proof
      assume dec: "face (change_of e) = Num 2 \<and> layer (change_of e) = Num 5"
      from that ik' have "integer_key (fst e)" by (simp add: list_all_iff)
      with dec show "fst e = ?k"
        using integer_key_decoded [of "fst e" "snd e" 2 5] by simp
    next
      assume "fst e = ?k"
      then have "e = (?k, snd e)" by (metis prod.collapse)
      then have "change_of e = \<lparr>face = Num 2, layer = Num 5, block = snd e\<rparr>"
        using change_of_integers [OF ex, of "snd e"] by simp
      then show "face (change_of e) = Num 2 \<and> layer (change_of e) = Num 5" by simp
    qed
    have "filter (\<lambda>c. face c = Num 2 \<and> layer c = Num 5) (snapshotAll ?wc') =
        map change_of (filter (\<lambda>e. face (change_of e) = Num 2 \<and> layer (change_of e) = Num 5) ?wc')"
      by (simp add: snapshotAll_def filter_map comp_def)
    also have "filter (\<lambda>e. face (change_of e) = Num 2 \<and> layer (change_of e) = Num 5) ?wc' =
        filter (\<lambda>e. fst e = ?k) ?wc'"
      by (rule filter_cong [OF refl]) (rule same)
    also have "\<dots> = [(?k, JStr ''dirt'')]" by (rule Map_set_filter [OF d])
    finally have "filter (\<lambda>c. face c = Num 2 \<and> layer c = Num 5) (snapshotAll ?wc') =
        [\<lparr>face = Num 2, layer = Num 5, block = JStr ''dirt''\<rparr>]"
      using change_of_integers [OF ex, of "JStr ''dirt''"] by simp
    with one show ?thesis by blast
  qed
  from d replaces typed show ?thesis unfolding twice by blast
qed

theorem one_entry_per_coordinate_witness:
  "list_all integer_coords demo_edits \<and>
   filter (\<lambda>c. face c = Num 2 \<and> layer c = Num 5)
       (snapshotAll (worldChanges
          (on_message 0 ''a'' (blockChange (JNum (SafeInt 2)) (JNum (SafeInt 5)) (JStr ''dirt''))
            (on_message 0 ''a'' (blockChange (JNum (SafeInt 2)) (JNum (SafeInt 5)) (JStr ''stone''))
               (run demo_edits (init 2 2)))))) =
       [\<lparr>face = Num 2, layer = Num 5, block = JStr ''dirt''\<rparr>]"
proof -
  have h: "list_all integer_coords demo_edits"
    by (simp add: demo_edits_def blockChange_def exact_int_def)
  from one_entry_per_coordinate [of demo_edits 2 2 0 "''a''" 0 "''a''"] h
  have "filter (\<lambda>c. face c = Num 2 \<and> layer c = Num 5)
       (snapshotAll (worldChanges
          (on_message 0 ''a'' (blockChange (JNum (SafeInt 2)) (JNum (SafeInt 5)) (JStr ''dirt''))
            (on_message 0 ''a'' (blockChange (JNum (SafeInt 2)) (JNum (SafeInt 5)) (JStr ''stone''))
               (run demo_edits (init 2 2)))))) =
       [\<lparr>face = Num 2, layer = Num 5, block = JStr ''dirt''\<rparr>]"
    by blast
  with h show ?thesis by (rule conjI)
qed

text \<open>
  A connection that sends \<^verbatim>\<open>blockChange\<close> with the face \<^verbatim>\<open>"02"\<close>, the layer 5 and \<open>sand\<close>, then
  \<open>(2, 5, stone)\<close>, then \<open>(2, 5, dirt)\<close>: the keys \<^verbatim>\<open>02_5\<close> and \<^verbatim>\<open>2_5\<close> are two entries, and both
  are replayed as \<open>(2, 5)\<close>.
\<close>

theorem leading_zero_counterexample:
  "filter (\<lambda>c. face c = Num 2 \<and> layer c = Num 5)
     (snapshotAll (worldChanges (run leading_zero (init 2 2)))) =
     [\<lparr>face = Num 2, layer = Num 5, block = JStr ''sand''\<rparr>,
      \<lparr>face = Num 2, layer = Num 5, block = JStr ''dirt''\<rparr>]"
proof -
  have k1: "block_key 2 (JStr ''02'') (JNum (SafeInt 5)) = Inr ''02_5''"
    by (simp add: block_key_def digits_of_nat.simps digit_char_def)
  have k2: "block_key 2 (JNum (SafeInt 2)) (JNum (SafeInt 5)) = Inr ''2_5''"
    by (simp add: block_key_def digits_of_nat.simps digit_char_def)
  have "worldChanges (run leading_zero (init 2 2)) =
      Map_set (Map_set (Map_set [] ''02_5'' (JStr ''sand'')) ''2_5'' (JStr ''stone'')) ''2_5'' (JStr ''dirt'')"
    unfolding leading_zero_def run_Cons run_Nil
    using deliver_blockChange [OF deliver_blockChange [OF deliver_blockChange [OF first_connection k1] k2] k2,
        of "JStr ''dirt''" "JStr ''stone''" "JStr ''sand''"]
    by blast
  then show ?thesis
    by (simp add: snapshotAll_def change_of_def Number_def is_digit_def nat_of_digits_def digit_val_def)
qed

text \<open>
  C9. A \<^verbatim>\<open>blockChange\<close> message with integer \<^verbatim>\<open>face\<close> and \<^verbatim>\<open>layer\<close> is stored under the key
  \<^verbatim>\<open>${face}_${layer}\<close>, and every later snapshot, which splits the key at \<^verbatim>\<open>_\<close> and
  converts the pieces with \<^verbatim>\<open>Number\<close>, has an entry whose face and layer are these two
  integers. The integers are those a double holds exactly and prints in plain decimal
  (magnitude at most \<open>2^53\<close>). Without the restriction to integers the key is not
  injective and the decoding does not give back what was applied: the pairs
  \<open>(''1_2'', 3)\<close> and \<open>(1, ''2_3'')\<close> share the key \<^verbatim>\<open>1_2_3\<close>, which decodes to \<open>(1, 2)\<close>.
\<close>

theorem integer_coordinates_replayed:
  assumes "exact_int f" "exact_int l"
  shows "worldChanges (on_message ws pid (blockChange (JNum (SafeInt f)) (JNum (SafeInt l)) bl) s) =
       Map_set (worldChanges s)
         (Number_toString (SafeInt f) @ ''_'' @ Number_toString (SafeInt l)) bl \<and>
     (\<forall>evs. \<exists>c \<in> set (snapshotAll (worldChanges
                 (run evs (on_message ws pid
                    (blockChange (JNum (SafeInt f)) (JNum (SafeInt l)) bl) s)))).
         face c = Num f \<and> layer c = Num l) \<and>
     block_key lvl (JStr ''1_2'') (JNum (SafeInt 3)) = Inr ''1_2_3'' \<and>
     block_key lvl (JNum (SafeInt 1)) (JStr ''2_3'') = Inr ''1_2_3'' \<and>
     change_of (''1_2_3'', bl) = \<lparr>face = Num 1, layer = Num 2, block = bl\<rparr>"
proof -
  let ?k = "Number_toString (SafeInt f) @ ''_'' @ Number_toString (SafeInt l)"
  let ?s' = "on_message ws pid (blockChange (JNum (SafeInt f)) (JNum (SafeInt l)) bl) s"
  have w: "worldChanges ?s' = Map_set (worldChanges s) ?k bl"
    by (rule world_after_blockChange [OF block_key_integers])
  have "k \<in> fst ` set (Map_set m k v)" for m :: "(string \<times> jsval) list" and k v
    by (induction m) auto
  then have "?k \<in> fst ` set (worldChanges ?s')"
    unfolding w .
  have later: "\<exists>c \<in> set (snapshotAll (worldChanges (run evs ?s'))). face c = Num f \<and> layer c = Num l"
    for evs
  proof -
    from \<open>?k \<in> fst ` set (worldChanges ?s')\<close> keys_kept [of ?s' evs]
    have "?k \<in> fst ` set (worldChanges (run evs ?s'))" by blast
    then obtain v where v: "(?k, v) \<in> set (worldChanges (run evs ?s'))" by auto
    then have "change_of (?k, v) \<in> set (snapshotAll (worldChanges (run evs ?s')))"
      by (simp add: snapshotAll_def)
    moreover have "face (change_of (?k, v)) = Num f \<and> layer (change_of (?k, v)) = Num l"
      using change_of_integers [OF assms, of v] by simp
    ultimately show ?thesis by blast
  qed
  have k1: "block_key lvl (JStr ''1_2'') (JNum (SafeInt 3)) = Inr ''1_2_3''"
    by (simp add: block_key_def digits_of_nat.simps digit_char_def)
  have k2: "block_key lvl (JNum (SafeInt 1)) (JStr ''2_3'') = Inr ''1_2_3''"
    by (simp add: block_key_def digits_of_nat.simps digit_char_def)
  have dec: "change_of (''1_2_3'', bl) = \<lparr>face = Num 1, layer = Num 2, block = bl\<rparr>"
    by (simp add: change_of_def Number_def is_digit_def nat_of_digits_def digit_val_def)
  from w later k1 k2 dec show ?thesis by blast
qed

theorem integer_coordinates_replayed_witness:
  "exact_int 2 \<and> exact_int (- 5) \<and>
   worldChanges (on_message 0 ''a''
      (blockChange (JNum (SafeInt 2)) (JNum (SafeInt (- 5))) (JStr ''stone'')) demo_server) =
     [(''2_-5'', JStr ''stone'')] \<and>
   snapshotAll (worldChanges (on_message 0 ''a''
      (blockChange (JNum (SafeInt 2)) (JNum (SafeInt (- 5))) (JStr ''stone'')) demo_server)) =
     [\<lparr>face = Num 2, layer = Num (- 5), block = JStr ''stone''\<rparr>]"
proof -
  have h: "exact_int 2" "exact_int (- 5)" by (simp_all add: exact_int_def)
  have t: "Number_toString (SafeInt 2) @ ''_'' @ Number_toString (SafeInt (- 5)) = ''2_-5''"
    by (simp add: digits_of_nat.simps digit_char_def)
  have dec: "change_of (''2_-5'', JStr ''stone'') = \<lparr>face = Num 2, layer = Num (- 5), block = JStr ''stone''\<rparr>"
    by (simp add: change_of_def Number_def is_digit_def nat_of_digits_def digit_val_def)
  have e: "worldChanges demo_server = []" by (simp add: demo_server_def)
  from integer_coordinates_replayed [OF h, of 0 "''a''" "JStr ''stone''" demo_server]
  have "worldChanges (on_message 0 ''a''
      (blockChange (JNum (SafeInt 2)) (JNum (SafeInt (- 5))) (JStr ''stone'')) demo_server) =
     Map_set (worldChanges demo_server)
       (Number_toString (SafeInt 2) @ ''_'' @ Number_toString (SafeInt (- 5))) (JStr ''stone'')"
    by blast
  then have w: "worldChanges (on_message 0 ''a''
      (blockChange (JNum (SafeInt 2)) (JNum (SafeInt (- 5))) (JStr ''stone'')) demo_server) =
     [(''2_-5'', JStr ''stone'')]"
    unfolding t e by simp
  show ?thesis
    unfolding w snapshotAll_def using h dec by simp
qed

section \<open>Rounding to a double\<close>

lemma pow2_mono: "k \<le> k' \<Longrightarrow> (2::real) powi k \<le> 2 powi k'"
  by (rule power_int_increasing) simp_all

lemma pow2_strict: "k < k' \<Longrightarrow> (2::real) powi k < 2 powi k'"
  by (rule power_int_strict_increasing) simp_all

lemma pow2_less_cancel: "(2::real) powi k < 2 powi k' \<Longrightarrow> k < k'"
  using pow2_mono [of k' k] by (cases "k < k'") auto

lemma binade_bounds:
  assumes "0 < x"
  shows "2 powi binade x \<le> x \<and> x < 2 powi (binade x + 1)"
proof (cases "1 \<le> x")
  case True
  let ?n = "nat \<lfloor>x\<rfloor>"
  let ?j = "floorlog 2 ?n"
  have n: "0 < ?n" using True by simp
  from floorlog_bounds [OF n, of 2] have b: "2 ^ (?j - 1) \<le> ?n" "?n < 2 ^ ?j" by simp_all
  have "?j \<noteq> 0" using n by (simp add: floorlog_eq_zero_iff)
  then have j: "1 \<le> ?j" by linarith
  have "int (?j - 1) = int ?j - 1" using j by linarith
  then have bx: "binade x = int (?j - 1)" using True by (simp only: binade_def if_True)
  have "real ?n \<le> x" using True by simp
  moreover have "(2::real) ^ (?j - 1) \<le> real ?n" using b(1) by (metis of_nat_le_iff of_nat_numeral of_nat_power)
  ultimately have "2 ^ (?j - 1) \<le> x" by linarith
  then have lo: "2 powi binade x \<le> x" by (simp only: bx power_int_of_nat)
  have "x < real ?n + 1" using True by linarith
  moreover have "real ?n + 1 \<le> 2 ^ ?j"
    using b(2) by (metis Suc_leI of_nat_Suc of_nat_le_iff of_nat_numeral of_nat_power add.commute)
  ultimately have "x < 2 ^ ?j" by linarith
  moreover have "binade x + 1 = int ?j" using bx j by simp
  ultimately have "x < 2 powi (binade x + 1)" by simp
  with lo show ?thesis by simp
next
  case False
  let ?y = "1 / x"
  let ?m = "nat (\<lceil>?y\<rceil> - 1)"
  let ?j = "floorlog 2 ?m"
  have y: "1 < ?y" using assms False by simp
  then have c: "2 \<le> \<lceil>?y\<rceil>" by linarith
  then have m: "0 < ?m" by simp
  from floorlog_bounds [OF m, of 2] have b: "2 ^ (?j - 1) \<le> ?m" "?m < 2 ^ ?j" by simp_all
  have "?j \<noteq> 0" using m by (simp add: floorlog_eq_zero_iff)
  then have j: "1 \<le> ?j" by linarith
  have bx: "binade x = - int ?j" using False by (simp add: binade_def)
  have "real ?m + 1 \<le> 2 ^ ?j"
    using b(2) by (metis Suc_leI of_nat_Suc of_nat_le_iff of_nat_numeral of_nat_power add.commute)
  moreover have "?y \<le> real ?m + 1" using c by (simp add: of_nat_diff) linarith
  ultimately have "?y \<le> 2 ^ ?j" by linarith
  then have "1 \<le> x * 2 ^ ?j" using assms by (simp add: field_simps)
  then have lo: "2 powi binade x \<le> x"
    by (simp add: bx power_int_minus field_simps)
  have "(2::real) ^ (?j - 1) \<le> real ?m"
    using b(1) by (metis of_nat_le_iff of_nat_numeral of_nat_power)
  moreover have "real ?m < ?y" using c by (simp add: of_nat_diff) linarith
  ultimately have "2 ^ (?j - 1) < ?y" by linarith
  then have "x * 2 ^ (?j - 1) < 1" using assms by (simp add: field_simps)
  moreover have "binade x + 1 = - int (?j - 1)" using bx j by simp
  ultimately have "x < 2 powi (binade x + 1)"
    by (simp add: power_int_minus field_simps)
  with lo show ?thesis by simp
qed

lemma binade_unique:
  assumes "0 < x" "2 powi k \<le> x" "x < 2 powi (k + 1)"
  shows "binade x = k"
proof -
  from binade_bounds [OF assms(1)] have b: "2 powi binade x \<le> x" "x < 2 powi (binade x + 1)"
    by simp_all
  have "(2::real) powi binade x < 2 powi (k + 1)" using b(1) assms(3) by linarith
  then have "binade x < k + 1" by (rule pow2_less_cancel)
  moreover have "(2::real) powi k < 2 powi (binade x + 1)" using b(2) assms(2) by linarith
  then have "k < binade x + 1" by (rule pow2_less_cancel)
  ultimately show ?thesis by simp
qed

lemma binade_mono:
  assumes "0 < x" "x \<le> y"
  shows "binade x \<le> binade y"
proof -
  have "0 < y" using assms by simp
  from binade_bounds [OF assms(1)] binade_bounds [OF this]
  have "(2::real) powi binade x < 2 powi (binade y + 1)" using assms(2) by linarith
  then have "binade x < binade y + 1" by (rule pow2_less_cancel)
  then show ?thesis by simp
qed

lemma rne_near:
  assumes "of_int n - 1 / 2 < q" "q < of_int n + 1 / 2"
  shows "rne q = n"
proof (cases "of_int n \<le> q")
  case True
  then have "\<lfloor>q\<rfloor> = n" using assms by linarith
  then show ?thesis using assms by (simp add: rne_def)
next
  case False
  then have "\<lfloor>q\<rfloor> = n - 1" using assms by linarith
  then show ?thesis using assms by (simp add: rne_def)
qed

lemma rne_tie:
  assumes "q = of_int n + 1 / 2" "even n"
  shows "rne q = n"
proof -
  have "\<lfloor>q\<rfloor> = n" using assms by linarith
  then show ?thesis using assms by (simp add: rne_def)
qed

lemma rne_int: "rne (of_int n) = n"
  by (rule rne_near) simp_all

lemma rne_range: "\<lfloor>q\<rfloor> \<le> rne q \<and> rne q \<le> \<lfloor>q\<rfloor> + 1"
  by (simp add: rne_def Let_def)

lemma rne_mono:
  assumes "q \<le> q'"
  shows "rne q \<le> rne q'"
proof (cases "\<lfloor>q\<rfloor> = \<lfloor>q'\<rfloor>")
  case True
  with assms show ?thesis by (simp add: rne_def Let_def)
next
  case False
  with assms have "\<lfloor>q\<rfloor> + 1 \<le> \<lfloor>q'\<rfloor>" using floor_mono [OF assms] by linarith
  with rne_range [of q] rne_range [of q'] show ?thesis by linarith
qed

lemma ulp_exponent_mono:
  assumes "0 < x" "x \<le> y"
  shows "ulp_exponent x \<le> ulp_exponent y"
  using binade_mono [OF assms] assms by (simp add: ulp_exponent_def)

lemma fl_pos_eq:
  assumes "0 < x"
  shows "fl x = of_int (rne (x / 2 powi ulp_exponent x)) * 2 powi ulp_exponent x"
  using assms by (simp add: fl_def)

lemma fl_le_pow:
  assumes "0 < x" "x \<le> 2 powi k" "ulp_exponent x \<le> k"
  shows "fl x \<le> 2 powi k"
proof -
  let ?e = "ulp_exponent x"
  have split: "(2::real) powi k = 2 powi (k - ?e) * 2 powi ?e"
    using power_int_add [of "2::real" "k - ?e" ?e] by simp
  have int: "(2::real) powi (k - ?e) = of_int (2 ^ nat (k - ?e))"
    using assms(3) by (simp add: power_int_nonneg_exp)
  have "x / 2 powi ?e \<le> 2 powi (k - ?e)"
    using assms(2) split by (simp add: field_simps)
  then have "rne (x / 2 powi ?e) \<le> rne (of_int (2 ^ nat (k - ?e)))"
    unfolding int by (rule rne_mono)
  then have "rne (x / 2 powi ?e) \<le> 2 ^ nat (k - ?e)" by (simp only: rne_int)
  then have "real_of_int (rne (x / 2 powi ?e)) \<le> of_int (2 ^ nat (k - ?e))" by linarith
  then have "real_of_int (rne (x / 2 powi ?e)) * 2 powi ?e \<le> 2 powi (k - ?e) * 2 powi ?e"
    unfolding int by (intro mult_right_mono) simp_all
  then show ?thesis by (simp only: fl_pos_eq [OF assms(1)] split [symmetric])
qed

lemma fl_ge_pow:
  assumes "0 < x" "2 powi k \<le> x" "ulp_exponent x \<le> k"
  shows "2 powi k \<le> fl x"
proof -
  let ?e = "ulp_exponent x"
  have split: "(2::real) powi k = 2 powi (k - ?e) * 2 powi ?e"
    using power_int_add [of "2::real" "k - ?e" ?e] by simp
  have int: "(2::real) powi (k - ?e) = of_int (2 ^ nat (k - ?e))"
    using assms(3) by (simp add: power_int_nonneg_exp)
  have "2 powi (k - ?e) \<le> x / 2 powi ?e"
    using assms(2) split by (simp add: field_simps)
  then have "rne (of_int (2 ^ nat (k - ?e))) \<le> rne (x / 2 powi ?e)"
    unfolding int by (rule rne_mono)
  then have "2 ^ nat (k - ?e) \<le> rne (x / 2 powi ?e)" by (simp only: rne_int)
  then have "real_of_int (2 ^ nat (k - ?e)) \<le> of_int (rne (x / 2 powi ?e))" by linarith
  then have "2 powi (k - ?e) * 2 powi ?e \<le> real_of_int (rne (x / 2 powi ?e)) * 2 powi ?e"
    unfolding int by (intro mult_right_mono) simp_all
  then show ?thesis by (simp only: fl_pos_eq [OF assms(1)] split [symmetric])
qed

lemma fl_nonneg:
  assumes "0 \<le> x"
  shows "0 \<le> fl x"
proof (cases "x = 0")
  case True
  then show ?thesis by (simp add: fl_def)
next
  case False
  with assms have pos: "0 < x" by simp
  have "rne 0 \<le> rne (x / 2 powi ulp_exponent x)"
    using pos by (intro rne_mono) simp
  moreover have "rne 0 = 0" using rne_int [of 0] by simp
  ultimately have "0 \<le> rne (x / 2 powi ulp_exponent x)" by simp
  then show ?thesis by (simp add: fl_pos_eq [OF pos])
qed

lemma fl_mono:
  assumes "0 \<le> x" "x \<le> y"
  shows "fl x \<le> fl y"
proof (cases "x = 0")
  case True
  then show ?thesis using fl_nonneg [of y] assms by (simp add: fl_def)
next
  case False
  with assms have px: "0 < x" and py: "0 < y" by simp_all
  have le: "ulp_exponent x \<le> ulp_exponent y" by (rule ulp_exponent_mono [OF px assms(2)])
  show ?thesis
  proof (cases "ulp_exponent x = ulp_exponent y")
    case True
    have "x / 2 powi ulp_exponent y \<le> y / 2 powi ulp_exponent y"
      using assms(2) by (simp add: divide_right_mono)
    then have "rne (x / 2 powi ulp_exponent y) \<le> rne (y / 2 powi ulp_exponent y)"
      by (rule rne_mono)
    then have "real_of_int (rne (x / 2 powi ulp_exponent y)) * 2 powi ulp_exponent y \<le>
        of_int (rne (y / 2 powi ulp_exponent y)) * 2 powi ulp_exponent y"
      by (intro mult_right_mono) simp_all
    then show ?thesis by (simp add: fl_pos_eq [OF px] fl_pos_eq [OF py] True)
  next
    case False
    with le have lt: "ulp_exponent x < ulp_exponent y" by simp
    let ?k = "binade y"
    have ey: "ulp_exponent y = ?k - 52" and bx: "binade x < ?k"
      using lt px py by (auto simp: ulp_exponent_def split: if_splits)
    have b1: "binade x + 1 \<le> ?k" using bx by simp
    have "x < 2 powi (binade x + 1)" using binade_bounds [OF px] by simp
    also have "\<dots> \<le> 2 powi ?k" by (rule pow2_mono [OF b1])
    finally have xk: "x \<le> 2 powi ?k" by simp
    have "fl x \<le> 2 powi ?k"
      using lt ey by (intro fl_le_pow [OF px xk]) simp
    also have "\<dots> \<le> fl y"
      using binade_bounds [OF py] ey by (intro fl_ge_pow [OF py]) simp_all
    finally show ?thesis .
  qed
qed

lemma fl_in_binade:
  assumes "0 < x" "2 powi k \<le> x" "x < 2 powi (k + 1)" "- 1022 \<le> k"
  shows "fl x = of_int (rne (x / 2 powi (k - 52))) * 2 powi (k - 52)"
proof -
  have "binade x = k" by (rule binade_unique [OF assms(1-3)])
  then have "ulp_exponent x = k - 52" using assms(1,4) by (simp add: ulp_exponent_def)
  then show ?thesis by (simp add: fl_pos_eq [OF assms(1)])
qed

lemma fl_seven_tenths: "fl (7 / 10) = 6305039478318694 / 9007199254740992"
proof -
  have "fl (7 / 10) = of_int (rne ((7 / 10) / 2 powi (- 1 - 52))) * 2 powi (- 1 - 52)"
    by (rule fl_in_binade) simp_all
  moreover have "rne ((7 / 10) / 2 powi (- 1 - 52)) = 6305039478318694"
    by (rule rne_near) simp_all
  ultimately show ?thesis by simp
qed

lemma fl_three_tenths: "fl (3 / 10) = 5404319552844595 / 18014398509481984"
proof -
  have "fl (3 / 10) = of_int (rne ((3 / 10) / 2 powi (- 2 - 52))) * 2 powi (- 2 - 52)"
    by (rule fl_in_binade) simp_all
  moreover have "rne ((3 / 10) / 2 powi (- 2 - 52)) = 5404319552844595"
    by (rule rne_near) simp_all
  ultimately show ?thesis by simp
qed

lemma fl_three_tenths_double: "fl (5404319552844595 / 18014398509481984) = 5404319552844595 / 18014398509481984"
proof -
  have "fl (5404319552844595 / 18014398509481984) =
      of_int (rne ((5404319552844595 / 18014398509481984) / 2 powi (- 2 - 52))) * 2 powi (- 2 - 52)"
    by (rule fl_in_binade) simp_all
  moreover have "rne ((5404319552844595 / 18014398509481984) / 2 powi (- 2 - 52)) = 5404319552844595"
    by (rule rne_near) simp_all
  ultimately show ?thesis by simp
qed

lemma fl_top_product:
  "fl ((1 - 1 / 9007199254740992) * (6305039478318694 / 9007199254740992)) =
     6305039478318693 / 9007199254740992"
proof -
  have "fl ((1 - 1 / 9007199254740992) * (6305039478318694 / 9007199254740992)) =
      of_int (rne (((1 - 1 / 9007199254740992) * (6305039478318694 / 9007199254740992)) /
                2 powi (- 1 - 52))) * 2 powi (- 1 - 52)"
    by (rule fl_in_binade) simp_all
  moreover have "rne (((1 - 1 / 9007199254740992) * (6305039478318694 / 9007199254740992)) /
                2 powi (- 1 - 52)) = 6305039478318693"
    by (rule rne_near) simp_all
  ultimately show ?thesis by simp
qed

lemma fl_top_sum:
  "fl (6305039478318693 / 9007199254740992 + 5404319552844595 / 18014398509481984) =
     9007199254740990 / 9007199254740992"
proof -
  have "fl (6305039478318693 / 9007199254740992 + 5404319552844595 / 18014398509481984) =
      of_int (rne ((6305039478318693 / 9007199254740992 + 5404319552844595 / 18014398509481984) /
                2 powi (- 1 - 52))) * 2 powi (- 1 - 52)"
    by (rule fl_in_binade) simp_all
  moreover have "rne ((6305039478318693 / 9007199254740992 + 5404319552844595 / 18014398509481984) /
                2 powi (- 1 - 52)) = 9007199254740990"
    by (rule rne_tie) simp_all
  ultimately show ?thesis by simp
qed

lemma double_below_one:
  assumes "is_double u" "0 \<le> u" "u < 1"
  shows "u \<le> 1 - 1 / 9007199254740992"
proof (cases "u < 1 / 2")
  case True
  then show ?thesis by simp
next
  case False
  then have pos: "0 < u" and lo: "2 powi (- 1) \<le> u" by simp_all
  have hi: "u < 2 powi (- 1 + 1)" using assms(3) by simp
  have "fl u = of_int (rne (u / 2 powi (- 1 - 52))) * 2 powi (- 1 - 52)"
    by (rule fl_in_binade [OF pos lo hi]) simp
  with assms(1) have u: "u = of_int (rne (u / 2 powi (- 1 - 52))) / 9007199254740992"
    by (simp add: is_double_def)
  with assms(3) have "real_of_int (rne (u / 2 powi (- 1 - 52))) < 9007199254740992" by simp
  then have "rne (u / 2 powi (- 1 - 52)) \<le> 9007199254740991" by linarith
  then have "real_of_int (rne (u / 2 powi (- 1 - 52))) \<le> 9007199254740991" by linarith
  then have "of_int (rne (u / 2 powi (- 1 - 52))) / 9007199254740992 \<le>
      (9007199254740991 :: real) / 9007199254740992"
    by (simp add: divide_right_mono)
  with u show ?thesis by simp
qed

lemma channel_range:
  assumes "is_double u" "0 \<le> u" "u < 1"
  shows "fl (3 / 10) \<le> channel u \<and> channel u < 1"
proof -
  let ?c7 = "6305039478318694 / 9007199254740992 :: real"
  let ?c3 = "5404319552844595 / 18014398509481984 :: real"
  have ch: "channel u = fl (fl (u * ?c7) + ?c3)"
    by (simp add: channel_def d_add_def d_mul_def fl_seven_tenths fl_three_tenths)
  have p0: "0 \<le> fl (u * ?c7)" using assms(2) by (intro fl_nonneg) simp
  then have "fl ?c3 \<le> fl (fl (u * ?c7) + ?c3)" by (intro fl_mono) simp_all
  then have lower: "fl (3 / 10) \<le> channel u"
    by (simp only: ch fl_three_tenths fl_three_tenths_double)
  have "u \<le> 1 - 1 / 9007199254740992" by (rule double_below_one [OF assms])
  then have "u * ?c7 \<le> (1 - 1 / 9007199254740992) * ?c7" by (intro mult_right_mono) simp_all
  then have "fl (u * ?c7) \<le> fl ((1 - 1 / 9007199254740992) * ?c7)"
    using assms(2) by (intro fl_mono) simp_all
  then have "fl (u * ?c7) \<le> 6305039478318693 / 9007199254740992"
    by (simp only: fl_top_product)
  then have "fl (fl (u * ?c7) + ?c3) \<le> fl (6305039478318693 / 9007199254740992 + ?c3)"
    using p0 by (intro fl_mono) simp_all
  then have "channel u \<le> 9007199254740990 / 9007199254740992"
    by (simp only: ch fl_top_sum)
  then have "channel u < 1" by simp
  with lower show ?thesis by simp
qed

section \<open>The colour generator\<close>

text \<open>
  C10. When the three calls of \<^verbatim>\<open>Math.random\<close> return doubles in \<open>[0, 1)\<close>, each channel of
  the colour is computed from its own call as \<^verbatim>\<open>Math.random() * 0.7 + 0.3\<close> in double
  arithmetic, and lies in \<open>[0.3, 1)\<close>, where \<open>0.3\<close> is the double of the literal \<^verbatim>\<open>0.3\<close>.
\<close>

theorem color_channels_in_range:
  assumes "\<And>i. i < 3 \<Longrightarrow> is_double (rnd i) \<and> 0 \<le> rnd i \<and> rnd i < 1"
  shows "col_r (generateColor rnd) = channel (rnd 0) \<and>
         col_g (generateColor rnd) = channel (rnd 1) \<and>
         col_b (generateColor rnd) = channel (rnd 2) \<and>
         fl (3 / 10) \<le> col_r (generateColor rnd) \<and> col_r (generateColor rnd) < 1 \<and>
         fl (3 / 10) \<le> col_g (generateColor rnd) \<and> col_g (generateColor rnd) < 1 \<and>
         fl (3 / 10) \<le> col_b (generateColor rnd) \<and> col_b (generateColor rnd) < 1"
  using channel_range [of "rnd 0"] channel_range [of "rnd 1"] channel_range [of "rnd 2"]
    assms [of 0] assms [of 1] assms [of 2]
  by (simp add: generateColor_def)

lemma half_is_double: "is_double (1 / 2)"
proof -
  have "fl (1 / 2) = of_int (rne ((1 / 2) / 2 powi (- 1 - 52))) * 2 powi (- 1 - 52)"
    by (rule fl_in_binade) simp_all
  moreover have "rne ((1 / 2) / 2 powi (- 1 - 52)) = 4503599627370496"
    by (rule rne_near) simp_all
  ultimately show ?thesis by (simp add: is_double_def)
qed

theorem color_channels_in_range_witness:
  "is_double (1 / 2) \<and> fl (3 / 10) \<le> col_r (generateColor (\<lambda>i. 1 / 2)) \<and>
   col_r (generateColor (\<lambda>i. 1 / 2)) < 1 \<and>
   fl (3 / 10) \<le> col_b (generateColor (\<lambda>i. 1 / 2)) \<and> col_b (generateColor (\<lambda>i. 1 / 2)) < 1"
  using color_channels_in_range [of "\<lambda>i. 1 / 2"] half_is_double by simp

end
